theory Spec2Isabelle
  imports Complex_Main "HOL-Library.Log_Nat"
begin

section \<open>C library functions used by the game\<close>

text \<open>
  The character classes of \<^verbatim>\<open><ctype.h>\<close> in the C locale, on the byte value of a
  character. They are not part of the repository; the definitions follow the C standard.
\<close>

definition isalpha :: "char \<Rightarrow> bool" where
  "isalpha ch = (let n = (of_char ch :: nat) in (65 \<le> n \<and> n \<le> 90) \<or> (97 \<le> n \<and> n \<le> 122))"

definition isgraph :: "char \<Rightarrow> bool" where
  "isgraph ch = (let n = (of_char ch :: nat) in 33 \<le> n \<and> n \<le> 126)"

definition isblank :: "char \<Rightarrow> bool" where
  "isblank ch = (let n = (of_char ch :: nat) in n = 32 \<or> n = 9)"

definition isspace :: "char \<Rightarrow> bool" where
  "isspace ch = (let n = (of_char ch :: nat) in n = 32 \<or> (9 \<le> n \<and> n \<le> 13))"

definition isdigit :: "char \<Rightarrow> bool" where
  "isdigit ch = (let n = (of_char ch :: nat) in 48 \<le> n \<and> n \<le> 57)"

text \<open>The remainder operator \<^verbatim>\<open>%\<close> of C on \<^verbatim>\<open>int\<close>: the quotient is truncated towards
  zero, so the result has the sign of the dividend. The divisor is not zero.\<close>

definition c_rem :: "int \<Rightarrow> int \<Rightarrow> int" where
  "c_rem a b = sgn a * (\<bar>a\<bar> mod \<bar>b\<bar>)"

text \<open>\<^verbatim>\<open>atoi\<close>: optional white space, an optional sign, then the longest run of decimal
  digits; 0 when there is no digit. For a value outside \<^verbatim>\<open>int\<close> the C standard leaves
  the result open; the definition follows the GNU C library on a platform with 64-bit
  \<^verbatim>\<open>long\<close> and 32-bit \<^verbatim>\<open>int\<close>, where \<^verbatim>\<open>atoi(s)\<close> is \<^verbatim>\<open>(int) strtol(s, NULL, 10)\<close>:
  \<^verbatim>\<open>strtol\<close> stops at the bounds of \<^verbatim>\<open>long\<close>, and the conversion keeps the low 32 bits.\<close>

fun atoi_digits :: "int \<Rightarrow> string \<Rightarrow> int" where
  "atoi_digits acc [] = acc"
| "atoi_digits acc (ch # s) =
     (if isdigit ch then atoi_digits (acc * 10 + (int (of_char ch) - 48)) s else acc)"

definition strtol :: "string \<Rightarrow> int" where
  "strtol s =
     (let v = (case dropWhile isspace s of
                 [] \<Rightarrow> 0
               | ch # t \<Rightarrow> if ch = CHR ''-'' then - atoi_digits 0 t
                           else if ch = CHR ''+'' then atoi_digits 0 t
                           else atoi_digits 0 (ch # t))
      in max (- (2 ^ 63)) (min (2 ^ 63 - 1) v))"

definition long_to_int :: "int \<Rightarrow> int" where
  "long_to_int v = (v + 2 ^ 31) mod 2 ^ 32 - 2 ^ 31"

definition atoi :: "string \<Rightarrow> int" where
  "atoi s = long_to_int (strtol s)"

text \<open>Decimal output of an \<^verbatim>\<open>int\<close>, as \<^verbatim>\<open>%d\<close> of \<^verbatim>\<open>sprintf\<close> prints it.\<close>

fun digits_of :: "nat \<Rightarrow> nat \<Rightarrow> string" where
  "digits_of 0 n = []"
| "digits_of (Suc fuel) n =
     (if n < 10 then [char_of (48 + n)]
      else digits_of fuel (n div 10) @ [char_of (48 + n mod 10)])"

definition show_int :: "int \<Rightarrow> string" where
  "show_int i = (if i < 0 then CHR ''-'' # digits_of (Suc (nat (- i))) (nat (- i))
                 else digits_of (Suc (nat i)) (nat i))"

subsection \<open>Single-precision arithmetic\<close>

text \<open>
  \<^verbatim>\<open>grid_isVisible\<close> computes in \<^verbatim>\<open>float\<close>. A finite \<^verbatim>\<open>float\<close> is modelled by the
  rational number it denotes, and every operation rounds its exact result to the nearest
  number with a 24-bit significand, ties to the even significand (IEEE 754 binary32,
  the default rounding mode). The least exponent is that of the subnormal numbers.
  Overflow to infinity is not modelled: the operands come from 32-bit integers, whose
  products and quotients stay far below \<open>2^128\<close>.
\<close>

definition round_nearest_even :: "rat \<Rightarrow> int" where
  "round_nearest_even x =
     (let f = \<lfloor>x\<rfloor>; d = x - of_int f
      in if d < 1 / 2 then f else if 1 / 2 < d then f + 1 else if even f then f else f + 1)"

definition float_exponent :: "rat \<Rightarrow> int" where
  "float_exponent x =
     (let (p, q) = quotient_of \<bar>x\<bar>; k = bitlen p - bitlen q
      in if 2 powi k \<le> \<bar>x\<bar> then k else k - 1)"

definition to_float :: "rat \<Rightarrow> rat" where
  "to_float x =
     (if x = 0 then 0
      else let u = 2 powi (max (float_exponent x) (- 126) - 23)
           in of_int (round_nearest_even (x / u)) * u)"

text \<open>The conversion \<^verbatim>\<open>(int)\<close> of a \<^verbatim>\<open>float\<close> truncates towards zero.\<close>

definition float_to_int :: "rat \<Rightarrow> int" where
  "float_to_int x = (if 0 \<le> x then \<lfloor>x\<rfloor> else \<lceil>x\<rceil>)"

section \<open>The grid module (grid.c)\<close>

text \<open>
  \<^verbatim>\<open>struct grid\<close>: the characters of the map, row after row, and the two dimensions.
  The record stands for a grid that was allocated, so the \<^verbatim>\<open>NULL\<close> checks of the
  functions below are not taken.
\<close>

record grid =
  map_chars :: "char list"
  nrow :: int
  ncol :: int

definition grid_new :: "int \<Rightarrow> int \<Rightarrow> grid option" where
  "grid_new nr nc =
     (if nr < 0 \<or> nc < 0 then None
      else Some \<lparr>map_chars = replicate (nat (nr * nc)) CHR '' '', nrow = nr, ncol = nc\<rparr>)"

definition grid_nrow :: "grid \<Rightarrow> int" where
  "grid_nrow g = nrow g"

definition grid_ncol :: "grid \<Rightarrow> int" where
  "grid_ncol g = ncol g"

definition grid_getchar :: "grid \<Rightarrow> int \<Rightarrow> int \<Rightarrow> char" where
  "grid_getchar g r c =
     (if 0 \<le> r \<and> r < nrow g \<and> 0 \<le> c \<and> c < ncol g
      then map_chars g ! nat (r * ncol g + c)
      else CHR ''^'')"

definition grid_update :: "grid \<Rightarrow> int \<Rightarrow> int \<Rightarrow> char \<Rightarrow> grid" where
  "grid_update g r c ch =
     (if 0 \<le> r \<and> r < nrow g \<and> 0 \<le> c \<and> c < ncol g
      then g\<lparr>map_chars := (map_chars g)[nat (r * ncol g + c) := ch]\<rparr>
      else g)"

definition grid_isPlayer :: "grid \<Rightarrow> int \<Rightarrow> int \<Rightarrow> bool" where
  "grid_isPlayer g r c = (isalpha (grid_getchar g r c) \<or> grid_getchar g r c = CHR ''@'')"

definition grid_isBlockable :: "grid \<Rightarrow> int \<Rightarrow> int \<Rightarrow> bool" where
  "grid_isBlockable g r c =
     (grid_getchar g r c \<noteq> CHR ''.'' \<and> grid_getchar g r c \<noteq> CHR ''*'' \<and> \<not> grid_isPlayer g r c)"

definition grid_isEmptyRoomSpot :: "grid \<Rightarrow> int \<Rightarrow> int \<Rightarrow> bool" where
  "grid_isEmptyRoomSpot g r c = (grid_getchar g r c = CHR ''.'')"

definition grid_isGold :: "grid \<Rightarrow> int \<Rightarrow> int \<Rightarrow> bool" where
  "grid_isGold g r c = (grid_getchar g r c = CHR ''*'')"

definition grid_isBoundary :: "grid \<Rightarrow> int \<Rightarrow> int \<Rightarrow> bool" where
  "grid_isBoundary g r c =
     (grid_getchar g r c = CHR ''|'' \<or> grid_getchar g r c = CHR ''-''
      \<or> grid_getchar g r c = CHR ''+'')"

definition grid_isRock :: "grid \<Rightarrow> int \<Rightarrow> int \<Rightarrow> bool" where
  "grid_isRock g r c = (grid_getchar g r c = CHR '' '')"

definition grid_canMoveTo :: "grid \<Rightarrow> int \<Rightarrow> int \<Rightarrow> bool" where
  "grid_canMoveTo g r c =
     (\<not> grid_isBoundary g r c \<and> \<not> grid_isRock g r c \<and> grid_getchar g r c \<noteq> CHR ''^'')"


text \<open>A \<^verbatim>\<open>for\<close> loop over \<open>i = lo, ..., hi - 1\<close> that returns false at the first index
  failing the test, and true when no index fails.\<close>

function for_all_from :: "int \<Rightarrow> int \<Rightarrow> (int \<Rightarrow> bool) \<Rightarrow> bool" where
  "for_all_from i hi ok = (if i < hi then (if ok i then for_all_from (i + 1) hi ok else False) else True)"
  by pat_completeness auto
termination
  by (relation "measure (\<lambda>(i, hi, ok). nat (hi - i))") auto

declare for_all_from.simps [simp del]

text \<open>The column \<^verbatim>\<open>(float)(i - pr) * dcol / drow + pc\<close> at which the segment crosses
  row \<open>i\<close> (and, with the roles exchanged, the row at which it crosses a column).\<close>

definition crossing :: "int \<Rightarrow> int \<Rightarrow> int \<Rightarrow> int \<Rightarrow> int \<Rightarrow> rat" where
  "crossing i pr dcol drow pc =
     to_float (to_float (to_float (to_float (of_int (i - pr)) * to_float (of_int dcol))
                         / to_float (of_int drow))
               + to_float (of_int pc))"

definition grid_isVisible :: "grid \<Rightarrow> int \<Rightarrow> int \<Rightarrow> int \<Rightarrow> int \<Rightarrow> bool" where
  "grid_isVisible master pr pc r c =
     (let r1 = (if pr > r then r else pr); r2 = (if pr > r then pr else r);
          c1 = (if pc > c then c else pc); c2 = (if pc > c then pc else c);
          drow = r - pr; dcol = c - pc
      in (drow = 0 \<longrightarrow> for_all_from (c1 + 1) c2 (\<lambda>j. \<not> grid_isBlockable master pr j))
       \<and> (dcol = 0 \<longrightarrow> for_all_from (r1 + 1) r2 (\<lambda>i. \<not> grid_isBlockable master i pc))
       \<and> for_all_from (r1 + 1) r2
            (\<lambda>i. let ic = crossing i pr dcol drow pc
                 in if ic = to_float (of_int (float_to_int ic))
                    then \<not> grid_isBlockable master i (float_to_int ic)
                    else \<not> (grid_isBlockable master i (float_to_int ic)
                            \<and> grid_isBlockable master i (float_to_int ic + 1)))
       \<and> for_all_from (c1 + 1) c2
            (\<lambda>i. let ir = crossing i pc drow dcol pr
                 in if ir = to_float (of_int (float_to_int ir))
                    then \<not> grid_isBlockable master (float_to_int ir) i
                    else \<not> (grid_isBlockable master (float_to_int ir) i
                            \<and> grid_isBlockable master (float_to_int ir + 1) i)))"

definition grid_clean :: "grid \<Rightarrow> grid \<Rightarrow> grid" where
  "grid_clean raw known =
     fold (\<lambda>r k. fold (\<lambda>c k. if grid_isGold k r c \<or> grid_isPlayer k r c
                                then grid_update k r c (grid_getchar raw r c) else k)
                       [0 ..  ncol known - 1] k)
          [0 .. nrow known - 1] known"

definition grid_setVisibility :: "grid \<Rightarrow> grid \<Rightarrow> grid \<Rightarrow> int \<Rightarrow> int \<Rightarrow> grid" where
  "grid_setVisibility master raw known pr pc =
     (let k1 = grid_clean raw known;
          k2 = fold (\<lambda>r k. fold (\<lambda>c k. if \<not> grid_isRock master r c \<and> grid_isVisible master pr pc r c
                                          then grid_update k r c (grid_getchar master r c) else k)
                                 [0 .. ncol master - 1] k)
                    [0 .. nrow master - 1] k1
      in grid_update k2 pr pc CHR ''@'')"

definition grid_toString :: "grid \<Rightarrow> string" where
  "grid_toString g =
     concat (map (\<lambda>r. map (\<lambda>c. grid_getchar g r c) [0 .. ncol g - 1] @ [CHR 0x0A])
                 [0 .. nrow g - 1])"

section \<open>The server (server.c)\<close>

subsection \<open>Addresses and messages (message.c)\<close>

record addr_t =
  sin_family :: nat
  sin_port :: nat
  s_addr :: nat

definition AF_INET :: nat where
  "AF_INET = 2"

definition message_noAddr :: addr_t where
  "message_noAddr = \<lparr>sin_family = 0, sin_port = 0, s_addr = 0\<rparr>"

definition message_isAddr :: "addr_t \<Rightarrow> bool" where
  "message_isAddr a = (sin_family a = AF_INET)"

definition message_eqAddr :: "addr_t \<Rightarrow> addr_t \<Rightarrow> bool" where
  "message_eqAddr a b =
     (sin_family a = sin_family b \<and> sin_port a = sin_port b \<and> s_addr a = s_addr b)"

subsection \<open>Players and the game\<close>

definition MaxNameLength :: nat where "MaxNameLength = 50"
definition MaxPlayers :: int where "MaxPlayers = 26"
definition GoldTotal :: int where "GoldTotal = 250"
definition GoldMinNumPiles :: int where "GoldMinNumPiles = 10"
definition GoldMaxNumPiles :: int where "GoldMaxNumPiles = 30"

record player =
  IP :: addr_t
  realName :: string
  alias' :: char
  gold :: int
  justCollected :: int
  row :: int
  col :: int
  seenGrid :: grid

text \<open>
  \<^verbatim>\<open>struct game\<close>, the global \<^verbatim>\<open>GAME\<close>. The array \<^verbatim>\<open>players\<close> with its count
  \<^verbatim>\<open>numPlayer\<close> is the list \<open>players\<close>, whose length is the count. Two more fields make
  the effects of the C library explicit: \<open>rands\<close> holds the values that the coming calls
  of \<^verbatim>\<open>rand()\<close> return, in order, and \<open>sent\<close> records every call of \<^verbatim>\<open>message_send\<close>.
\<close>

record game =
  masterGrid :: grid
  rawGrid :: grid
  GridRow :: int
  GridCol :: int
  GoldNumPilesLeft :: int
  goldCollected :: int
  goldLeft :: int
  players :: "player list"
  spectatorIP :: addr_t
  seed :: int
  rands :: "nat list"
  sent :: "(addr_t \<times> string) list"

definition numPlayer :: "game \<Rightarrow> int" where
  "numPlayer g = int (length (players g))"

text \<open>What stops a handler in the model: \<open>OutOfRandom\<close> when the supplied draws of
  \<^verbatim>\<open>rand()\<close> are used up (a rejection loop that has not ended by then), \<open>DivByZero\<close>
  for \<^verbatim>\<open>%\<close> by zero, \<open>NullGrid\<close> when \<^verbatim>\<open>grid_new\<close> returned \<^verbatim>\<open>NULL\<close>.\<close>

datatype fault = OutOfRandom | DivByZero | NullGrid

definition message_send :: "addr_t \<Rightarrow> string \<Rightarrow> game \<Rightarrow> game" where
  "message_send to msg g = g\<lparr>sent := sent g @ [(to, msg)]\<rparr>"


text \<open>\<^verbatim>\<open>rand() % n\<close>: the next draw, reduced.\<close>

definition rand_mod :: "int \<Rightarrow> game \<Rightarrow> fault + (int \<times> game)" where
  "rand_mod n g =
     (case rands g of
        [] \<Rightarrow> Inl OutOfRandom
      | x # rs \<Rightarrow> if n = 0 then Inl DivByZero else Inr (c_rem (int x) n, g\<lparr>rands := rs\<rparr>))"

text \<open>The rejection loop of \<^verbatim>\<open>server_drop_gold\<close> and \<^verbatim>\<open>server_drop_player\<close>: draw a
  row and a column until the cell is an empty room spot.\<close>

fun find_spot :: "int \<Rightarrow> int \<Rightarrow> grid \<Rightarrow> nat list \<Rightarrow> fault + (int \<times> int \<times> nat list)" where
  "find_spot nr nc m (x # y # rs) =
     (if nr = 0 \<or> nc = 0 then Inl DivByZero
      else if grid_isEmptyRoomSpot m (c_rem (int x) nr) (c_rem (int y) nc)
           then Inr (c_rem (int x) nr, c_rem (int y) nc, rs)
           else find_spot nr nc m rs)"
| "find_spot nr nc m rs = Inl OutOfRandom"

fun drop_piles :: "nat \<Rightarrow> game \<Rightarrow> fault + game" where
  "drop_piles 0 g = Inr g"
| "drop_piles (Suc n) g =
     (case find_spot (GridRow g) (GridCol g) (masterGrid g) (rands g) of
        Inl f \<Rightarrow> Inl f
      | Inr (r, c, rs) \<Rightarrow>
          drop_piles n (g\<lparr>rands := rs, masterGrid := grid_update (masterGrid g) r c CHR ''*''\<rparr>))"

definition server_drop_gold :: "game \<Rightarrow> fault + game" where
  "server_drop_gold g =
     (case rand_mod (GoldMaxNumPiles - GoldMinNumPiles) g of
        Inl f \<Rightarrow> Inl f
      | Inr (x, g1) \<Rightarrow>
          drop_piles (nat (x + GoldMinNumPiles))
            (g1\<lparr>GoldNumPilesLeft := x + GoldMinNumPiles, goldCollected := 0, goldLeft := GoldTotal\<rparr>))"

definition server_drop_player :: "game \<Rightarrow> fault + (int \<times> int \<times> game)" where
  "server_drop_player g =
     (case find_spot (GridRow g) (GridCol g) (masterGrid g) (rands g) of
        Inl f \<Rightarrow> Inl f
      | Inr (r, c, rs) \<Rightarrow> Inr (r, c, g\<lparr>rands := rs\<rparr>))"

subsection \<open>Broadcast\<close>

definition gold_message :: "int \<Rightarrow> int \<Rightarrow> int \<Rightarrow> string" where
  "gold_message n p r = ''GOLD '' @ show_int n @ '' '' @ show_int p @ '' '' @ show_int r"

definition display_message :: "grid \<Rightarrow> string" where
  "display_message g = ''DISPLAY'' @ [CHR 0x0A] @ grid_toString g"

text \<open>One round of the loop over the players in \<^verbatim>\<open>server_update_all_clients\<close>: what it
  leaves in the player, and the two messages it sends.\<close>

definition refresh_player :: "game \<Rightarrow> player \<Rightarrow> player" where
  "refresh_player g p =
     p\<lparr>justCollected := 0,
       seenGrid := grid_setVisibility (masterGrid g) (rawGrid g) (seenGrid p) (row p) (col p)\<rparr>"

definition client_messages :: "game \<Rightarrow> player \<Rightarrow> (addr_t \<times> string) list" where
  "client_messages g p =
     [(IP p, gold_message (justCollected p) (gold p) (goldLeft g)),
      (IP p, display_message (seenGrid (refresh_player g p)))]"

definition server_update_all_clients :: "game \<Rightarrow> game" where
  "server_update_all_clients g =
     (let g1 = (if message_isAddr (spectatorIP g)
                then message_send (spectatorIP g) (display_message (masterGrid g))
                       (message_send (spectatorIP g) (gold_message 0 0 (goldLeft g)) g)
                else g)
      in g1\<lparr>players := map (refresh_player g) (players g),
            sent := sent g1 @ concat (map (client_messages g) (players g))\<rparr>)"

subsection \<open>Moves\<close>

definition pickup_gold :: "nat \<Rightarrow> game \<Rightarrow> fault + game" where
  "pickup_gold who g =
     (let minPerPile = 1;
          maxPerPile = goldLeft g - GoldNumPilesLeft g + 1
      in case (if GoldNumPilesLeft g \<noteq> 1
               then (case rand_mod (maxPerPile - minPerPile + 1) g of
                       Inl f \<Rightarrow> Inl f
                     | Inr (x, g1) \<Rightarrow> Inr (x + minPerPile, g1))
               else Inr (goldLeft g, g)) of
           Inl f \<Rightarrow> Inl f
         | Inr (amount, g1) \<Rightarrow>
             Inr (g1\<lparr>players := (players g1)[who := (players g1 ! who)
                                    \<lparr>gold := gold (players g1 ! who) + amount,
                                     justCollected := amount\<rparr>],
                     goldCollected := goldCollected g1 + amount,
                     goldLeft := goldLeft g1 - amount,
                     GoldNumPilesLeft := GoldNumPilesLeft g1 - 1\<rparr>))"

text \<open>The first player of the table at a position, as the loop of the swap finds it.\<close>

fun first_player_at :: "player list \<Rightarrow> int \<Rightarrow> int \<Rightarrow> nat option" where
  "first_player_at [] r c = None"
| "first_player_at (p # ps) r c =
     (if row p = r \<and> col p = c then Some 0 else map_option Suc (first_player_at ps r c))"

definition set_position :: "nat \<Rightarrow> int \<Rightarrow> int \<Rightarrow> player list \<Rightarrow> player list" where
  "set_position k r c ps = ps[k := (ps ! k)\<lparr>row := r, col := c\<rparr>]"

text \<open>The statements that the gold branch and the last branch of \<^verbatim>\<open>player_move\<close>
  share: the player takes the new position, the old tile of the master grid gets its
  raw character back, the new tile gets the player's letter.\<close>

definition enter_tile :: "nat \<Rightarrow> int \<Rightarrow> int \<Rightarrow> game \<Rightarrow> game" where
  "enter_tile who new_row new_col g =
     (let old_row = row (players g ! who); old_col = col (players g ! who);
          ps1 = set_position who new_row new_col (players g);
          raw_char = grid_getchar (rawGrid g) old_row old_col;
          m1 = grid_update (masterGrid g) old_row old_col raw_char;
          m2 = grid_update m1 new_row new_col (alias' (ps1 ! who))
      in g\<lparr>players := ps1, masterGrid := m2\<rparr>)"

text \<open>The body of the swap: the player \<open>j\<close> found on the target takes the old position
  of the mover and the mover takes the target; each tile gets the letter of the player
  now on it.\<close>

definition swap_tiles :: "nat \<Rightarrow> nat \<Rightarrow> int \<Rightarrow> int \<Rightarrow> game \<Rightarrow> game" where
  "swap_tiles j who new_row new_col g =
     (let old_row = row (players g ! who); old_col = col (players g ! who);
          ps1 = set_position j old_row old_col (players g);
          m1 = grid_update (masterGrid g) old_row old_col (alias' (ps1 ! j));
          ps2 = set_position who new_row new_col ps1;
          m2 = grid_update m1 new_row new_col (alias' (ps2 ! who))
      in g\<lparr>players := ps2, masterGrid := m2\<rparr>)"

text \<open>\<^verbatim>\<open>player_move\<close>: the player is the entry \<open>who\<close> of the table. The result is the
  new game and the returned flag (true: cannot move). When the target shows a player but
  no player of the table stands there, the loop of the swap ends without a match and the
  function returns false with nothing changed.\<close>

definition player_move :: "nat \<Rightarrow> int \<Rightarrow> int \<Rightarrow> game \<Rightarrow> fault + (game \<times> bool)" where
  "player_move who new_row new_col g =
     (if grid_canMoveTo (masterGrid g) new_row new_col then
        if grid_isPlayer (masterGrid g) new_row new_col then
          (case first_player_at (players g) new_row new_col of
             None \<Rightarrow> Inr (g, False)
           | Some j \<Rightarrow> Inr (server_update_all_clients (swap_tiles j who new_row new_col g), False))
        else if grid_isGold (masterGrid g) new_row new_col then
          (case pickup_gold who (enter_tile who new_row new_col g) of
             Inl f \<Rightarrow> Inl f
           | Inr g' \<Rightarrow> Inr (server_update_all_clients g', False))
        else Inr (server_update_all_clients (enter_tile who new_row new_col g), False)
      else Inr (g, True))"

text \<open>The eight directions of the key table, with the change of row and column that
  \<^verbatim>\<open>handleKEY\<close> applies for each.\<close>

datatype direction = West | East | South | North | NorthWest | NorthEast | SouthWest | SouthEast

fun d_row :: "direction \<Rightarrow> int" where
  "d_row West = 0" | "d_row East = 0" | "d_row South = 1" | "d_row North = - 1"
| "d_row NorthWest = - 1" | "d_row NorthEast = - 1" | "d_row SouthWest = 1" | "d_row SouthEast = 1"

fun d_col :: "direction \<Rightarrow> int" where
  "d_col West = - 1" | "d_col East = 1" | "d_col South = 0" | "d_col North = 0"
| "d_col NorthWest = - 1" | "d_col NorthEast = 1" | "d_col SouthWest = - 1" | "d_col SouthEast = 1"

definition step_key :: "char \<Rightarrow> direction option" where
  "step_key k =
     (if k = CHR ''h'' then Some West else if k = CHR ''l'' then Some East
      else if k = CHR ''j'' then Some South else if k = CHR ''k'' then Some North
      else if k = CHR ''y'' then Some NorthWest else if k = CHR ''u'' then Some NorthEast
      else if k = CHR ''b'' then Some SouthWest else if k = CHR ''n'' then Some SouthEast
      else None)"

definition run_key :: "char \<Rightarrow> direction option" where
  "run_key k =
     (if k = CHR ''H'' then Some West else if k = CHR ''L'' then Some East
      else if k = CHR ''J'' then Some South else if k = CHR ''K'' then Some North
      else if k = CHR ''Y'' then Some NorthWest else if k = CHR ''U'' then Some NorthEast
      else if k = CHR ''B'' then Some SouthWest else if k = CHR ''N'' then Some SouthEast
      else None)"

text \<open>The loop of a run key,
  \<^verbatim>\<open>while (!player_move(player, row + dr, col + dc)) { row += dr; col += dc; }\<close>,
  on the local variables \<^verbatim>\<open>row\<close> and \<^verbatim>\<open>col\<close> of \<^verbatim>\<open>handleKEY\<close>.\<close>

function run_loop :: "nat \<Rightarrow> direction \<Rightarrow> int \<Rightarrow> int \<Rightarrow> game \<Rightarrow> fault + game" where
  "run_loop who d r c g =
     (case player_move who (r + d_row d) (c + d_col d) g of
        Inl f \<Rightarrow> Inl f
      | Inr (g', blocked) \<Rightarrow>
          if blocked then Inr g' else run_loop who d (r + d_row d) (c + d_col d) g')"
  by pat_completeness auto

subsection \<open>Message handlers\<close>

definition helper_nameIsEmpty :: "string \<Rightarrow> bool" where
  "helper_nameIsEmpty name = list_all isspace name"

text \<open>The loop of \<^verbatim>\<open>handlePlay\<close> that fills \<^verbatim>\<open>realName\<close>. Its test is
  \<^verbatim>\<open>isgraph(name[i]) == false && isblank(name[i] == false)\<close>: the argument of
  \<^verbatim>\<open>isblank\<close> is the value of the comparison \<^verbatim>\<open>name[i] == false\<close>, 0 or 1.\<close>

definition stored_name :: "string \<Rightarrow> string" where
  "stored_name name =
     map (\<lambda>ch. if \<not> isgraph ch \<and> isblank (char_of (if ch = CHR 0x00 then 1 else 0 :: nat))
               then CHR ''_'' else ch)
         (take MaxNameLength name)"

text \<open>The new player of \<^verbatim>\<open>handlePlay\<close>, added to the table and drawn on the master
  grid.\<close>

definition seat_player :: "addr_t \<Rightarrow> string \<Rightarrow> int \<Rightarrow> int \<Rightarrow> grid \<Rightarrow> game \<Rightarrow> game" where
  "seat_player from name r c sg g =
     (let p = \<lparr>IP = from, realName = stored_name name,
               alias' = char_of (65 + numPlayer g), gold = 0, justCollected = 0,
               row = r, col = c, seenGrid = sg\<rparr>
      in g\<lparr>players := players g @ [p],
           masterGrid := grid_update (masterGrid g) r c (alias' p)\<rparr>)"

definition handlePlay :: "addr_t \<Rightarrow> string \<Rightarrow> game \<Rightarrow> fault + (game \<times> bool)" where
  "handlePlay from name g =
     (if numPlayer g = MaxPlayers
      then Inr (message_send from ''QUIT Game is full: no more players can join.'' g, False)
      else if helper_nameIsEmpty name
      then Inr (message_send from (''QUIT Sorry: you must provide player'' @ [CHR 0x27] @ ''s name.'') g, False)
      else case server_drop_player g of
             Inl f \<Rightarrow> Inl f
           | Inr (r, c, g1) \<Rightarrow>
              (case grid_new (GridRow g1) (GridCol g1) of
                 None \<Rightarrow> Inl NullGrid
               | Some sg \<Rightarrow>
                   let g2 = seat_player from name r c sg g1;
                       g3 = message_send from (''OK '' @ [alias' (last (players g2))]) g2;
                       g4 = message_send from
                              (''GRID '' @ show_int (GridRow g3) @ '' '' @ show_int (GridCol g3)) g3
                   in Inr (server_update_all_clients g4, False)))"

definition handleSPECTATE :: "addr_t \<Rightarrow> game \<Rightarrow> fault + (game \<times> bool)" where
  "handleSPECTATE from g =
     (let g1 = (if message_isAddr (spectatorIP g)
                then message_send (spectatorIP g) ''QUIT You have been replaced by a new spectator.'' g
                else g);
          g2 = g1\<lparr>spectatorIP := from\<rparr>;
          g3 = message_send from
                 (''GRID '' @ show_int (GridRow g2) @ '' '' @ show_int (GridCol g2)) g2
      in Inr (server_update_all_clients g3, False))"

text \<open>One round of the loop over the players in \<^verbatim>\<open>handleQUIT\<close>.\<close>

definition quit_step :: "addr_t \<Rightarrow> player \<Rightarrow> game \<Rightarrow> game" where
  "quit_step ip p g =
     (if message_eqAddr ip (IP p)
      then (message_send ip ''QUIT Thanks for playing!'' g)
             \<lparr>masterGrid := grid_update (masterGrid g) (row p) (col p)
                              (grid_getchar (rawGrid g) (row p) (col p))\<rparr>
      else g)"

definition handleQUIT :: "addr_t \<Rightarrow> game \<Rightarrow> game" where
  "handleQUIT ip g =
     (let g1 = (if message_eqAddr (spectatorIP g) ip
                then message_send (spectatorIP g) ''QUIT Thanks for watching!'' g else g);
          g2 = fold (quit_step ip) (players g1) g1
      in server_update_all_clients g2)"

text \<open>The player that sent a key: the loop of \<^verbatim>\<open>handleKEY\<close> keeps the last entry of the
  table whose address is the sender's.\<close>

fun last_player_from :: "player list \<Rightarrow> addr_t \<Rightarrow> nat option" where
  "last_player_from [] a = None"
| "last_player_from (p # ps) a =
     (case last_player_from ps a of
        Some j \<Rightarrow> Some (Suc j)
      | None \<Rightarrow> if message_eqAddr a (IP p) then Some 0 else None)"

definition handleKEY :: "addr_t \<Rightarrow> string \<Rightarrow> game \<Rightarrow> fault + (game \<times> bool)" where
  "handleKEY from key g =
     (let KEY = (case key of [] \<Rightarrow> CHR 0x00 | ch # rest \<Rightarrow> ch)
      in if KEY = CHR ''Q'' then Inr (handleQUIT from g, False)
         else case last_player_from (players g) from of
                None \<Rightarrow> Inr (g, False)
              | Some who \<Rightarrow>
                  let r = row (players g ! who); c = col (players g ! who)
                  in case (case step_key KEY of
                             Some d \<Rightarrow>
                               (case player_move who (r + d_row d) (c + d_col d) g of
                                  Inl f \<Rightarrow> Inl f
                                | Inr (g1, blocked) \<Rightarrow> Inr g1)
                           | None \<Rightarrow>
                              (case run_key KEY of
                                 Some d \<Rightarrow> run_loop who d r c g
                               | None \<Rightarrow>
                                   Inr (message_send (IP (players g ! who))
                                         (''ERROR Unknown Keystroke: ''
                                            @ (if KEY = CHR 0x00 then [] else [KEY])) g))) of
                       Inl f \<Rightarrow> Inl f
                     | Inr g' \<Rightarrow> Inr (g', GoldNumPilesLeft g' = 0))"

definition handleMessage :: "addr_t \<Rightarrow> string \<Rightarrow> game \<Rightarrow> fault + (game \<times> bool)" where
  "handleMessage from msg g =
     (if take 5 msg = ''PLAY '' then handlePlay from (drop 5 msg) g
      else if take 8 msg = ''SPECTATE'' then handleSPECTATE from g
      else if take 4 msg = ''KEY '' then handleKEY from (drop 4 msg) g
      else Inr (g, False))"

text \<open>\<^verbatim>\<open>message_loop\<close> with \<^verbatim>\<open>handleMessage\<close> as its only handler: the datagrams are
  handled in their order of arrival until the handler returns true.\<close>

fun message_loop :: "(addr_t \<times> string) list \<Rightarrow> game \<Rightarrow> fault + game" where
  "message_loop [] g = Inr g"
| "message_loop ((from, msg) # rest) g =
     (case handleMessage from msg g of
        Inl f \<Rightarrow> Inl f
      | Inr (g', stop) \<Rightarrow> if stop then Inr g' else message_loop rest g')"

subsection \<open>Start of the server\<close>

text \<open>
  \<^verbatim>\<open>parseArgs\<close>. The file system is the parameter \<open>load\<close> (what \<^verbatim>\<open>grid_load\<close> returns for
  a file name, \<open>None\<close> for \<^verbatim>\<open>NULL\<close>) and \<open>pid\<close> is the value of \<^verbatim>\<open>getpid()\<close>. The result
  is the exit status when the function calls \<^verbatim>\<open>exit\<close>, and otherwise the game together
  with the argument that \<^verbatim>\<open>srand\<close> received.
\<close>

definition parseArgs ::
  "(string \<Rightarrow> grid option) \<Rightarrow> int \<Rightarrow> string list \<Rightarrow> game \<Rightarrow> int + (game \<times> int)" where
  "parseArgs load pid argv g =
     (if length argv = 2 then
        (case load (argv ! 1) of
           None \<Rightarrow> Inl (- 1)
         | Some m \<Rightarrow>
             Inr (g\<lparr>masterGrid := m, rawGrid := m, GridCol := grid_ncol m, GridRow := grid_nrow m\<rparr>,
                  pid))
      else if length argv = 3 then
        (case load (argv ! 1) of
           None \<Rightarrow> Inl (- 1)
         | Some m \<Rightarrow>
             let seed_arg = atoi (argv ! 2)
             in if seed_arg \<le> 0 then Inl (- 2)
                else Inr (g\<lparr>masterGrid := m, rawGrid := m, GridCol := grid_ncol m,
                           GridRow := grid_nrow m\<rparr>,
                          seed g))
      else Inl (- 3))"

text \<open>The global \<^verbatim>\<open>GAME\<close> when \<^verbatim>\<open>main\<close> calls \<^verbatim>\<open>parseArgs\<close>: zero-initialised, then
  \<^verbatim>\<open>numPlayer = 0\<close> and \<^verbatim>\<open>spectatorIP = message_noAddr()\<close>. The two grid pointers are
  \<^verbatim>\<open>NULL\<close> until \<^verbatim>\<open>parseArgs\<close> sets them; an empty grid stands for them here.\<close>

definition GAME_at_start :: game where
  "GAME_at_start =
     \<lparr>masterGrid = \<lparr>map_chars = [], nrow = 0, ncol = 0\<rparr>,
      rawGrid = \<lparr>map_chars = [], nrow = 0, ncol = 0\<rparr>,
      GridRow = 0, GridCol = 0, GoldNumPilesLeft = 0, goldCollected = 0, goldLeft = 0,
      players = [], spectatorIP = message_noAddr, seed = 0, rands = [], sent = []\<rparr>"

text \<open>\<^verbatim>\<open>main\<close> up to the message loop. \<open>libc_rand s\<close> is the sequence of values that
  \<^verbatim>\<open>rand()\<close> returns after \<^verbatim>\<open>srand(s)\<close>.\<close>

datatype startup = Exit int | Fault fault | Ready game

definition server_start ::
  "(string \<Rightarrow> grid option) \<Rightarrow> int \<Rightarrow> (int \<Rightarrow> nat list) \<Rightarrow> string list \<Rightarrow> startup" where
  "server_start load pid libc_rand argv =
     (case parseArgs load pid argv GAME_at_start of
        Inl status \<Rightarrow> Exit status
      | Inr (g, s) \<Rightarrow>
          (case server_drop_gold (g\<lparr>rands := libc_rand s\<rparr>) of
             Inl f \<Rightarrow> Fault f
           | Inr g' \<Rightarrow> Ready g'))"


section \<open>Notions used in the properties\<close>

subsection \<open>Cells of a grid\<close>

definition in_grid :: "grid \<Rightarrow> int \<Rightarrow> int \<Rightarrow> bool" where
  "in_grid g r c = (0 \<le> r \<and> r < nrow g \<and> 0 \<le> c \<and> c < ncol g)"

text \<open>A grid as \<^verbatim>\<open>grid_new\<close> and \<^verbatim>\<open>grid_load\<close> build it: the array has one character
  for each cell.\<close>

definition grid_ok :: "grid \<Rightarrow> bool" where
  "grid_ok g = (0 \<le> nrow g \<and> 0 \<le> ncol g \<and> length (map_chars g) = nat (nrow g * ncol g))"


subsection \<open>Example games\<close>

definition addrA :: addr_t where
  "addrA = \<lparr>sin_family = 2, sin_port = 4001, s_addr = 1\<rparr>"

definition addrB :: addr_t where
  "addrB = \<lparr>sin_family = 2, sin_port = 4002, s_addr = 1\<rparr>"

text \<open>A map of one row of twelve room spots.\<close>

definition row12 :: grid where
  "row12 = \<lparr>map_chars = ''............'', nrow = 1, ncol = 12\<rparr>"

text \<open>A table of 26 players on a row of 26 room spots.\<close>

definition seat :: "nat \<Rightarrow> player" where
  "seat k = \<lparr>IP = \<lparr>sin_family = 2, sin_port = 5000 + k, s_addr = 1\<rparr>, realName = ''p'',
             alias' = char_of (65 + k), gold = 0, justCollected = 0, row = 0, col = int k,
             seenGrid = \<lparr>map_chars = replicate 26 CHR '' '', nrow = 1, ncol = 26\<rparr>\<rparr>"

definition full_house :: game where
  "full_house =
     \<lparr>masterGrid = \<lparr>map_chars = ''ABCDEFGHIJKLMNOPQRSTUVWXYZ'', nrow = 1, ncol = 26\<rparr>,
      rawGrid = \<lparr>map_chars = replicate 26 CHR ''.'', nrow = 1, ncol = 26\<rparr>,
      GridRow = 1, GridCol = 26, GoldNumPilesLeft = 0, goldCollected = 250, goldLeft = 0,
      players = map seat [0 ..< 26], spectatorIP = message_noAddr, seed = 0,
      rands = [], sent = []\<rparr>"

text \<open>The values of \<^verbatim>\<open>rand()\<close> for the example: 0 for the number of piles (ten), ten
  cells for the piles, then the draws of the game.\<close>

definition draws :: "nat list" where
 "draws = [0, 0,0, 0,1, 0,2, 0,3, 0,4, 0,5, 0,6, 0,7, 0,8, 0,9, 0,10, 0,11, 7, 3]"

text \<open>The game on the map \<open>row12\<close> after \<^verbatim>\<open>server_drop_gold\<close> with these draws.\<close>

definition started :: game where
  "started = \<lparr>masterGrid = \<lparr>map_chars = ''**********..'', nrow = 1, ncol = 12\<rparr>,
     rawGrid = row12,
     GridRow = 1, GridCol = 12, GoldNumPilesLeft = 10, goldCollected = 0,
     goldLeft = 250, players = [],
     spectatorIP = message_noAddr, seed = 0,
     rands = [0, 10, 0, 11, 7, 3], sent = []\<rparr>"

text \<open>A game on the map \<open>row12\<close>: ten piles were dropped on the columns 0 to 9, then
  two players joined and were put on the columns 10 and 11.\<close>

definition two_seated :: game where
  "two_seated =
     \<lparr>masterGrid = \<lparr>map_chars = ''**********AB'', nrow = 1, ncol = 12\<rparr>,
      rawGrid = row12, GridRow = 1, GridCol = 12,
      GoldNumPilesLeft = 10, goldCollected = 0, goldLeft = 250,
      players =
        [\<lparr>IP = addrA, realName = ''ann'', alias' = CHR ''A'', gold = 0, justCollected = 0,
          row = 0, col = 10,
          seenGrid = \<lparr>map_chars = ''**********@B'', nrow = 1, ncol = 12\<rparr>\<rparr>,
         \<lparr>IP = addrB, realName = ''bob'', alias' = CHR ''B'', gold = 0, justCollected = 0,
          row = 0, col = 11,
          seenGrid = \<lparr>map_chars = ''**********A@'', nrow = 1, ncol = 12\<rparr>\<rparr>],
      spectatorIP = message_noAddr, seed = 0, rands = [7, 3], sent = []\<rparr>"


subsection \<open>Invariants of the game\<close>

definition purses :: "game \<Rightarrow> int" where
  "purses g = sum_list (map gold (players g))"

definition conserved :: "game \<Rightarrow> bool" where
  "conserved g = (purses g + goldLeft g = GoldTotal \<and> goldCollected g + goldLeft g = GoldTotal)"

text \<open>The books before a pickup: no more piles than nuggets are left, and no player has
  nuggets that the next broadcast still has to report.\<close>

definition ledger :: "game \<Rightarrow> bool" where
  "ledger g = (GoldNumPilesLeft g \<le> goldLeft g \<and> list_all (\<lambda>p. justCollected p = 0) (players g))"

definition all_in_grid :: "game \<Rightarrow> bool" where
  "all_in_grid g = list_all (\<lambda>p. in_grid (masterGrid g) (row p) (col p)) (players g)"

definition positions :: "game \<Rightarrow> (int \<times> int) list" where
  "positions g = map (\<lambda>p. (row p, col p)) (players g)"

text \<open>Every player of the table stands inside the master grid on a tile that shows the
  player's letter, and the letters follow the order of the table.\<close>

definition lettered :: "game \<Rightarrow> bool" where
  "lettered g =
     (grid_ok (masterGrid g) \<and> length (players g) \<le> 26
      \<and> (\<forall>i < length (players g).
            alias' (players g ! i) = char_of (65 + int i)
            \<and> in_grid (masterGrid g) (row (players g ! i)) (col (players g ! i))
            \<and> grid_getchar (masterGrid g) (row (players g ! i)) (col (players g ! i))
                = alias' (players g ! i)))"

subsection \<open>Runs and single steps\<close>

text \<open>The key of a single step and the key of a run in each direction.\<close>

fun step_char :: "direction \<Rightarrow> char" where
  "step_char West = CHR ''h''" | "step_char East = CHR ''l''"
| "step_char South = CHR ''j''" | "step_char North = CHR ''k''"
| "step_char NorthWest = CHR ''y''" | "step_char NorthEast = CHR ''u''"
| "step_char SouthWest = CHR ''b''" | "step_char SouthEast = CHR ''n''"

fun run_char :: "direction \<Rightarrow> char" where
  "run_char West = CHR ''H''" | "run_char East = CHR ''L''"
| "run_char South = CHR ''J''" | "run_char North = CHR ''K''"
| "run_char NorthWest = CHR ''Y''" | "run_char NorthEast = CHR ''U''"
| "run_char SouthWest = CHR ''B''" | "run_char SouthEast = CHR ''N''"

text \<open>The cells of a grid, and the games in which the raw grid shows no player and every
  tile of the master grid that shows a player is the position of a player of the table.\<close>

definition cells :: "grid \<Rightarrow> (int \<times> int) list" where
  "cells g = concat (map (\<lambda>r. map (\<lambda>c. (r, c)) [0 .. ncol g - 1]) [0 .. nrow g - 1])"

definition letters_occupied :: "game \<Rightarrow> bool" where
  "letters_occupied g =
     (grid_ok (masterGrid g)
      \<and> list_all (\<lambda>(r, c). \<not> grid_isPlayer (rawGrid g) r c) (cells (rawGrid g))
      \<and> list_all (\<lambda>(r, c). grid_isPlayer (masterGrid g) r c \<longrightarrow> (r, c) \<in> set (positions g))
                  (cells (masterGrid g)))"

text \<open>The maps of the map files: a grid as \<^verbatim>\<open>grid_load\<close> builds it, whose characters are
  rock, room spot, passage and the three boundary characters.\<close>

definition map_alphabet :: string where
  "map_alphabet = '' .#|-+''"

definition well_formed_map :: "grid \<Rightarrow> bool" where
  "well_formed_map m = (grid_ok m \<and> list_all (\<lambda>ch. ch \<in> set map_alphabet) (map_chars m))"

text \<open>The single steps that a run key stands for: the server handles the single-step key
  of the direction for the sender again and again, until a step targets a tile that
  \<^verbatim>\<open>grid_canMoveTo\<close> refuses. The flag that \<^verbatim>\<open>handleKEY\<close> returns is not looked at. The
  result is \<open>None\<close> when this never ends.\<close>

partial_function (option) step_until_blocked ::
  "addr_t \<Rightarrow> direction \<Rightarrow> game \<Rightarrow> (fault + game) option" where
  "step_until_blocked from d g =
     (case last_player_from (players g) from of
        None \<Rightarrow> Some (Inr g)
      | Some who \<Rightarrow>
          (case handleMessage from (''KEY '' @ [step_char d]) g of
             Inl f \<Rightarrow> Some (Inl f)
           | Inr (g1, over) \<Rightarrow>
               if grid_canMoveTo (masterGrid g) (row (players g ! who) + d_row d)
                                               (col (players g ! who) + d_col d)
               then step_until_blocked from d g1
               else Some (Inr g1)))"

subsection \<open>Example maps for the visibility test\<close>

text \<open>A room of three rows and four columns with two walls inside.\<close>

definition nook :: grid where
  "nook = \<lparr>map_chars = ''.#......#...'', nrow = 3, ncol = 4\<rparr>"

text \<open>A hall of 33554434 rows and two columns: room spots everywhere but for one wall,
  in row 1 and column 0.\<close>

definition long_hall :: grid where
  "long_hall = \<lparr>map_chars = ''..#'' @ replicate 67108865 CHR ''.'', nrow = 33554434, ncol = 2\<rparr>"
section \<open>Properties\<close>

subsection \<open>Cells of a grid\<close>

lemma grid_update_dims [simp]:
  "nrow (grid_update g r c ch) = nrow g" "ncol (grid_update g r c ch) = ncol g"
  by (simp_all add: grid_update_def)

lemma canMoveTo_in_grid: "grid_canMoveTo m r c \<Longrightarrow> in_grid m r c"
  by (auto simp: grid_canMoveTo_def grid_getchar_def in_grid_def split: if_splits)

lemma cell_index_inj:
  fixes r c r' c' n :: int
  assumes "0 \<le> c" "c < n" "0 \<le> c'" "c' < n" "r * n + c = r' * n + c'"
  shows "r = r' \<and> c = c'"
proof -
  have n: "n \<noteq> 0" using assms by auto
  have "(r * n + c) div n = r" using assms(1,2) n by (simp add: div_pos_pos_trivial)
  moreover have "(r' * n + c') div n = r'" using assms(3,4) n by (simp add: div_pos_pos_trivial)
  ultimately have "r = r'" using assms(5) by simp
  then show ?thesis using assms by simp
qed

lemma cell_index_bound:
  fixes r c nr nc :: int
  assumes "0 \<le> r" "r < nr" "0 \<le> c" "c < nc"
  shows "r * nc + c < nr * nc" "0 \<le> r * nc + c"
proof -
  have "r + 1 \<le> nr" using assms by simp
  then have "(r + 1) * nc \<le> nr * nc" using assms by (intro mult_right_mono) auto
  then show "r * nc + c < nr * nc" using assms by (simp add: algebra_simps)
  show "0 \<le> r * nc + c" using assms by simp
qed

lemma grid_ok_update [simp]: "grid_ok (grid_update g r c ch) = grid_ok g"
  by (simp add: grid_ok_def grid_update_def)

lemma in_grid_update [simp]: "in_grid (grid_update g r c ch) r' c' = in_grid g r' c'"
  by (simp add: in_grid_def)

lemma getchar_update:
  assumes "grid_ok g"
  shows "grid_getchar (grid_update g r c ch) r' c' =
           (if r' = r \<and> c' = c \<and> in_grid g r c then ch else grid_getchar g r' c')"
proof (cases "in_grid g r c")
  case False
  then show ?thesis by (auto simp: grid_update_def in_grid_def)
next
  case True
  show ?thesis
  proof (cases "in_grid g r' c'")
    case False
    then show ?thesis using True by (auto simp: grid_update_def grid_getchar_def in_grid_def)
  next
    case inb: True
    have len: "nat (r * ncol g + c) < length (map_chars g)"
      using cell_index_bound [of r "nrow g" c "ncol g"] True assms
      by (simp add: in_grid_def grid_ok_def nat_less_iff)
    show ?thesis
    proof (cases "r' = r \<and> c' = c")
      case True
      then show ?thesis using inb len by (simp add: grid_update_def grid_getchar_def in_grid_def)
    next
      case False
      have "r' * ncol g + c' \<noteq> r * ncol g + c"
        using cell_index_inj [of c' "ncol g" c r' r] inb True False by (auto simp: in_grid_def)
      moreover have "0 \<le> r' * ncol g + c'" "0 \<le> r * ncol g + c"
        using inb True by (simp_all add: in_grid_def)
      ultimately have "nat (r' * ncol g + c') \<noteq> nat (r * ncol g + c)" by simp
      then show ?thesis using False inb True
        by (auto simp: grid_update_def grid_getchar_def in_grid_def)
    qed
  qed
qed

lemma getchar_in_grid: "grid_getchar g r c \<noteq> CHR ''^'' \<Longrightarrow> in_grid g r c"
  by (auto simp: grid_getchar_def in_grid_def split: if_splits)

subsection \<open>What the broadcast and a move leave unchanged\<close>

lemma message_send_fields [simp]:
  "masterGrid (message_send a s g) = masterGrid g"
  "rawGrid (message_send a s g) = rawGrid g"
  "GridRow (message_send a s g) = GridRow g"
  "GridCol (message_send a s g) = GridCol g"
  "GoldNumPilesLeft (message_send a s g) = GoldNumPilesLeft g"
  "goldCollected (message_send a s g) = goldCollected g"
  "goldLeft (message_send a s g) = goldLeft g"
  "players (message_send a s g) = players g"
  "spectatorIP (message_send a s g) = spectatorIP g"
  "seed (message_send a s g) = seed g"
  "rands (message_send a s g) = rands g"
  "sent (message_send a s g) = sent g @ [(a, s)]"
  by (simp_all add: message_send_def)

lemma update_all_fields [simp]:
  "masterGrid (server_update_all_clients g) = masterGrid g"
  "rawGrid (server_update_all_clients g) = rawGrid g"
  "GridRow (server_update_all_clients g) = GridRow g"
  "GridCol (server_update_all_clients g) = GridCol g"
  "GoldNumPilesLeft (server_update_all_clients g) = GoldNumPilesLeft g"
  "goldCollected (server_update_all_clients g) = goldCollected g"
  "goldLeft (server_update_all_clients g) = goldLeft g"
  "spectatorIP (server_update_all_clients g) = spectatorIP g"
  "seed (server_update_all_clients g) = seed g"
  "rands (server_update_all_clients g) = rands g"
  "players (server_update_all_clients g) = map (refresh_player g) (players g)"
  by (simp_all add: server_update_all_clients_def Let_def)

lemma pickup_gold_master:
  "pickup_gold who g = Inr g' \<Longrightarrow> masterGrid g' = masterGrid g"
  by (auto simp: pickup_gold_def rand_mod_def Let_def split: if_splits list.splits sum.splits)

lemma player_move_blocked_iff:
  "player_move who r c g = Inr (g', b) \<Longrightarrow> b = (\<not> grid_canMoveTo (masterGrid g) r c)"
  by (auto simp: player_move_def Let_def split: if_splits option.splits sum.splits)

lemma player_move_dims:
  "player_move who r c g = Inr (g', b) \<Longrightarrow>
   nrow (masterGrid g') = nrow (masterGrid g) \<and> ncol (masterGrid g') = ncol (masterGrid g)"
  by (auto simp: player_move_def enter_tile_def swap_tiles_def Let_def
           split: if_splits option.splits sum.splits dest!: pickup_gold_master)

text \<open>A run ends: every round that moves on has a target inside the master grid, one
  step nearer to its border.\<close>

termination run_loop
proof (relation "measure (\<lambda>(who, d, r, c, g).
          nat ((if d_row d < 0 then r + 1 else if 0 < d_row d then nrow (masterGrid g) - r else 0)
             + (if d_col d < 0 then c + 1 else if 0 < d_col d then ncol (masterGrid g) - c else 0)))",
       goal_cases)
  case 1
  show ?case by simp
next
  case (2 who d r c g x2 g' blocked)
  then have pm: "player_move who (r + d_row d) (c + d_col d) g = Inr (g', False)" by simp
  from player_move_blocked_iff [OF pm]
  have "in_grid (masterGrid g) (r + d_row d) (c + d_col d)" by (simp add: canMoveTo_in_grid)
  moreover note player_move_dims [OF pm]
  ultimately show ?case by (cases d) (auto simp: in_grid_def)
qed

declare run_loop.simps [simp del]


subsection \<open>Lookups in the table\<close>

lemma find_spot_empty_spot:
  "find_spot nr nc m rs = Inr (r, c, rs') \<Longrightarrow> grid_isEmptyRoomSpot m r c"
  by (induction nr nc m rs rule: find_spot.induct) (auto split: if_splits)

lemma last_player_from_bound: "last_player_from ps a = Some j \<Longrightarrow> j < length ps"
  by (induction ps arbitrary: j) (auto split: option.splits if_splits)

lemma first_player_at_bound: "first_player_at ps r c = Some j \<Longrightarrow> j < length ps"
  by (induction ps arbitrary: j) (auto split: if_splits)

lemma first_player_at_position:
  "first_player_at ps r c = Some j \<Longrightarrow> row (ps ! j) = r \<and> col (ps ! j) = c"
  by (induction ps arbitrary: j) (auto split: if_splits)

lemma first_player_at_None:
  "first_player_at ps r c = None \<Longrightarrow> p \<in> set ps \<Longrightarrow> \<not> (row p = r \<and> col p = c)"
  by (induction ps) (auto split: if_splits)

lemma map_update_same [simp]: "(map f xs)[k := f (xs ! k)] = map f xs"
  by (metis list_update_id map_update)

lemma length_set_position [simp]: "length (set_position k r c ps) = length ps"
  by (simp add: set_position_def)

lemma enter_tile_fields [simp]:
  "rawGrid (enter_tile who r c g) = rawGrid g"
  "GridRow (enter_tile who r c g) = GridRow g"
  "GridCol (enter_tile who r c g) = GridCol g"
  "GoldNumPilesLeft (enter_tile who r c g) = GoldNumPilesLeft g"
  "goldCollected (enter_tile who r c g) = goldCollected g"
  "goldLeft (enter_tile who r c g) = goldLeft g"
  "spectatorIP (enter_tile who r c g) = spectatorIP g"
  "rands (enter_tile who r c g) = rands g"
  "sent (enter_tile who r c g) = sent g"
  "players (enter_tile who r c g) = set_position who r c (players g)"
  "nrow (masterGrid (enter_tile who r c g)) = nrow (masterGrid g)"
  "ncol (masterGrid (enter_tile who r c g)) = ncol (masterGrid g)"
  by (simp_all add: enter_tile_def Let_def)

lemma swap_tiles_fields [simp]:
  "rawGrid (swap_tiles j who r c g) = rawGrid g"
  "GridRow (swap_tiles j who r c g) = GridRow g"
  "GridCol (swap_tiles j who r c g) = GridCol g"
  "GoldNumPilesLeft (swap_tiles j who r c g) = GoldNumPilesLeft g"
  "goldCollected (swap_tiles j who r c g) = goldCollected g"
  "goldLeft (swap_tiles j who r c g) = goldLeft g"
  "spectatorIP (swap_tiles j who r c g) = spectatorIP g"
  "rands (swap_tiles j who r c g) = rands g"
  "sent (swap_tiles j who r c g) = sent g"
  "players (swap_tiles j who r c g) =
     set_position who r c (set_position j (row (players g ! who)) (col (players g ! who)) (players g))"
  "nrow (masterGrid (swap_tiles j who r c g)) = nrow (masterGrid g)"
  "ncol (masterGrid (swap_tiles j who r c g)) = ncol (masterGrid g)"
  by (simp_all add: swap_tiles_def Let_def)

lemma pickup_gold_fields:
  assumes "pickup_gold who g = Inr g'"
  shows "masterGrid g' = masterGrid g" "rawGrid g' = rawGrid g" "GridRow g' = GridRow g"
    "GridCol g' = GridCol g" "spectatorIP g' = spectatorIP g" "sent g' = sent g"
    "length (players g') = length (players g)"
    "map row (players g') = map row (players g)" "map col (players g') = map col (players g)"
    "map alias' (players g') = map alias' (players g)" "map IP (players g') = map IP (players g)"
  using assms
  by (auto simp: pickup_gold_def rand_mod_def Let_def map_update
           split: if_splits list.splits sum.splits)

lemma player_move_length:
  "player_move who r c g = Inr (g', b) \<Longrightarrow> length (players g') = length (players g)"
  by (auto simp: player_move_def split: if_splits option.splits sum.splits
           dest!: pickup_gold_fields(7))

subsection \<open>Properties kept by every handler\<close>

text \<open>A property of the game that every step of the handlers keeps is kept by
  \<^verbatim>\<open>handleMessage\<close>. The flag \<open>quits\<close> says whether the property is kept by a quit; when
  it is not, the message must not be \<^verbatim>\<open>KEY Q\<close>.\<close>

lemma run_loop_keeps:
  assumes bcast: "\<And>g. I g \<Longrightarrow> I (server_update_all_clients g)"
    and enter: "\<And>who r c g. I g \<Longrightarrow> who < length (players g) \<Longrightarrow> grid_canMoveTo (masterGrid g) r c
                  \<Longrightarrow> \<not> grid_isPlayer (masterGrid g) r c \<Longrightarrow> I (enter_tile who r c g)"
    and swap: "\<And>j who r c g. I g \<Longrightarrow> who < length (players g) \<Longrightarrow> grid_canMoveTo (masterGrid g) r c
                  \<Longrightarrow> grid_isPlayer (masterGrid g) r c
                  \<Longrightarrow> first_player_at (players g) r c = Some j \<Longrightarrow> I (swap_tiles j who r c g)"
    and pickup: "\<And>who g g'. I g \<Longrightarrow> who < length (players g) \<Longrightarrow> pickup_gold who g = Inr g'
                  \<Longrightarrow> I (server_update_all_clients g')"
  shows player_move_keeps:
      "I g \<Longrightarrow> who < length (players g) \<Longrightarrow> player_move who r c g = Inr (g', b) \<Longrightarrow> I g'"
    and "I g \<Longrightarrow> who < length (players g) \<Longrightarrow> run_loop who d r c g = Inr g'' \<Longrightarrow> I g''"
proof -
  show pm: "I g \<Longrightarrow> who < length (players g) \<Longrightarrow> player_move who r c g = Inr (g', b) \<Longrightarrow> I g'"
    for g who r c g' b
  proof -
    assume inv: "I g" and who: "who < length (players g)"
      and run: "player_move who r c g = Inr (g', b)"
    consider (same) "g' = g"
      | (swapped) j where "grid_canMoveTo (masterGrid g) r c" "grid_isPlayer (masterGrid g) r c"
          "first_player_at (players g) r c = Some j"
          "g' = server_update_all_clients (swap_tiles j who r c g)"
      | (gold) g1 where "grid_canMoveTo (masterGrid g) r c" "\<not> grid_isPlayer (masterGrid g) r c"
          "pickup_gold who (enter_tile who r c g) = Inr g1" "g' = server_update_all_clients g1"
      | (plain) "grid_canMoveTo (masterGrid g) r c" "\<not> grid_isPlayer (masterGrid g) r c"
          "g' = server_update_all_clients (enter_tile who r c g)"
      using run unfolding player_move_def
      by (auto split: if_splits option.splits sum.splits)
    then show "I g'"
    proof cases
      case same
      then show ?thesis using inv by simp
    next
      case swapped
      then show ?thesis using inv who by (auto intro!: bcast swap)
    next
      case gold
      have e: "I (enter_tile who r c g)" using inv who gold(1,2) by (rule enter)
      have "who < length (players (enter_tile who r c g))" using who by simp
      from pickup [OF e this gold(3)] show ?thesis using gold(4) by simp
    next
      case plain
      then show ?thesis using inv who by (auto intro!: bcast enter)
    qed
  qed
  show "I g \<Longrightarrow> who < length (players g) \<Longrightarrow> run_loop who d r c g = Inr g'' \<Longrightarrow> I g''"
  proof (induction who d r c g rule: run_loop.induct)
    case (1 who d r c g)
    from "1.prems"(3) show ?case
      apply (subst (asm) run_loop.simps)
      apply (auto split: sum.splits if_splits)
      using "1.prems" pm apply blast
      using "1.IH" "1.prems" pm player_move_length by metis
  qed
qed

lemma quit_step_players [simp]: "players (quit_step ip p g) = players g"
  by (simp add: quit_step_def)

lemma quit_fold_keeps:
  assumes quit: "\<And>ip p g. I g \<Longrightarrow> p \<in> set (players g) \<Longrightarrow> I (quit_step ip p g)"
  shows "I g \<Longrightarrow> set ps \<subseteq> set (players g) \<Longrightarrow> I (fold (quit_step ip) ps g)"
proof (induction ps arbitrary: g)
  case Nil
  then show ?case by simp
next
  case (Cons p ps)
  have "I (quit_step ip p g)" using Cons.prems by (intro quit) auto
  moreover have "set ps \<subseteq> set (players (quit_step ip p g))" using Cons.prems by simp
  ultimately show ?case using Cons.IH by simp
qed

lemma key_Q_prefix:
  assumes "take 4 msg = ''KEY ''" and "drop 4 msg = CHR ''Q'' # rest"
  shows "take 5 msg = ''KEY Q''"
proof -
  have "msg = take 4 msg @ drop 4 msg" by simp
  then have "msg = ''KEY Q'' @ rest" using assms by simp
  then show ?thesis by simp
qed

lemma handleMessage_keeps:
  assumes send: "\<And>a s g. I g \<Longrightarrow> I (message_send a s g)"
    and bcast: "\<And>g. I g \<Longrightarrow> I (server_update_all_clients g)"
    and spect: "\<And>a g. I g \<Longrightarrow> I (g\<lparr>spectatorIP := a\<rparr>)"
    and join: "\<And>a name r c rs sg g. I g \<Longrightarrow> numPlayer g \<noteq> MaxPlayers
                 \<Longrightarrow> find_spot (GridRow g) (GridCol g) (masterGrid g) (rands g) = Inr (r, c, rs)
                 \<Longrightarrow> grid_new (GridRow g) (GridCol g) = Some sg
                 \<Longrightarrow> I (seat_player a name r c sg (g\<lparr>rands := rs\<rparr>))"
    and quit: "\<And>ip p g. quits \<Longrightarrow> I g \<Longrightarrow> p \<in> set (players g) \<Longrightarrow> I (quit_step ip p g)"
    and enter: "\<And>who r c g. I g \<Longrightarrow> who < length (players g) \<Longrightarrow> grid_canMoveTo (masterGrid g) r c
                  \<Longrightarrow> \<not> grid_isPlayer (masterGrid g) r c \<Longrightarrow> I (enter_tile who r c g)"
    and swap: "\<And>j who r c g. I g \<Longrightarrow> who < length (players g) \<Longrightarrow> grid_canMoveTo (masterGrid g) r c
                  \<Longrightarrow> grid_isPlayer (masterGrid g) r c
                  \<Longrightarrow> first_player_at (players g) r c = Some j \<Longrightarrow> I (swap_tiles j who r c g)"
    and pickup: "\<And>who g g'. I g \<Longrightarrow> who < length (players g) \<Longrightarrow> pickup_gold who g = Inr g'
                  \<Longrightarrow> I (server_update_all_clients g')"
    and inv: "I g" and allowed: "quits \<or> take 5 msg \<noteq> ''KEY Q''"
    and run: "handleMessage from msg g = Inr (g', b)"
  shows "I g'"
proof -
  have pm: "I g1" if "who < length (players g)" "player_move who r c g = Inr (g1, bb)"
    for who r c g1 bb
    by (rule run_loop_keeps(1) [where I = I and g = g and who = who and r = r and c = c
                                  and g' = g1 and b = bb])
       (auto intro: bcast enter swap pickup inv that)
  have rl: "I g1" if "who < length (players g)" "run_loop who d r c g = Inr g1"
    for who d r c g1
    by (rule run_loop_keeps(2) [where I = I and g = g and who = who and r = r and c = c
                                  and g'' = g1 and d = d])
       (auto intro: bcast enter swap pickup inv that)
  consider (play) "take 5 msg = ''PLAY ''" "handlePlay from (drop 5 msg) g = Inr (g', b)"
    | (spectate) "handleSPECTATE from g = Inr (g', b)"
    | (key) "take 4 msg = ''KEY ''" "handleKEY from (drop 4 msg) g = Inr (g', b)"
    | (other) "g' = g"
    using run by (auto simp: handleMessage_def split: if_splits)
  then show ?thesis
  proof cases
    case play
    let ?name = "drop 5 msg"
    consider (refused) s where "g' = message_send from s g"
      | (joined) r c rs sg s1 s2 where "numPlayer g \<noteq> MaxPlayers"
          "find_spot (GridRow g) (GridCol g) (masterGrid g) (rands g) = Inr (r, c, rs)"
          "grid_new (GridRow g) (GridCol g) = Some sg"
          "g' = server_update_all_clients (message_send from s2 (message_send from s1
                  (seat_player from ?name r c sg (g\<lparr>rands := rs\<rparr>))))"
      using play(2) unfolding handlePlay_def server_drop_player_def Let_def
      by (auto split: if_splits sum.splits option.splits)
    then show ?thesis
    proof cases
      case refused
      then show ?thesis using inv send by simp
    next
      case joined
      have "I (seat_player from ?name r c sg (g\<lparr>rands := rs\<rparr>))"
        using inv joined(1-3) by (rule join)
      then show ?thesis unfolding joined(4) by (intro bcast send)
    qed
  next
    case spectate
    then have "\<exists>g0 s. I g0 \<and> g' = server_update_all_clients (message_send from s (g0\<lparr>spectatorIP := from\<rparr>))"
      using inv send unfolding handleSPECTATE_def Let_def by (auto split: if_splits)
    then show ?thesis using bcast send spect by blast
  next
    case other
    then show ?thesis using inv by simp
  next
    case key
    show ?thesis
    proof (cases "drop 4 msg")
      case Nil
      then show ?thesis using key inv
        by (auto simp: handleKEY_def step_key_def run_key_def Let_def
                 split: option.splits intro!: send)
    next
      case (Cons k rest)
      show ?thesis
      proof (cases "k = CHR ''Q''")
        case True
        then have "take 5 msg = ''KEY Q''" using key(1) Cons by (simp add: key_Q_prefix)
        then have q: quits using allowed by simp
        have "g' = handleQUIT from g" using key(2) Cons True by (simp add: handleKEY_def)
        moreover have "I (fold (quit_step from) (players g) g)"
          by (rule quit_fold_keeps [where I = I]) (auto intro: quit [OF q] inv)
        moreover have "I (fold (quit_step from) (players g)
                            (message_send (spectatorIP g) ''QUIT Thanks for watching!'' g))"
          by (rule quit_fold_keeps [where I = I]) (auto intro: quit [OF q] send [OF inv])
        ultimately show ?thesis using bcast by (simp add: handleQUIT_def Let_def)
      next
        case False
        show ?thesis
        proof (cases "last_player_from (players g) from")
          case None
          then show ?thesis using key(2) Cons False inv by (simp add: handleKEY_def)
        next
          case (Some who)
          then have who: "who < length (players g)" by (rule last_player_from_bound)
          let ?r = "row (players g ! who)" and ?c = "col (players g ! who)"
          consider (step) d bb where "player_move who (?r + d_row d) (?c + d_col d) g = Inr (g', bb)"
            | (run) d where "run_loop who d ?r ?c g = Inr g'"
            | (unknown) s where "g' = message_send (IP (players g ! who)) s g"
            using key(2) Cons False Some unfolding handleKEY_def Let_def
            by (auto split: option.splits sum.splits)
          then show ?thesis
          proof cases
            case step
            then show ?thesis using pm [OF who] by blast
          next
            case run
            then show ?thesis using rl [OF who] by blast
          next
            case unknown
            then show ?thesis using send [OF inv] by simp
          qed
        qed
      qed
    qed
  qed
qed

lemma message_loop_keeps:
  assumes step: "\<And>a msg g g' b. I g \<Longrightarrow> quits \<or> take 5 msg \<noteq> ''KEY Q''
                   \<Longrightarrow> handleMessage a msg g = Inr (g', b) \<Longrightarrow> I g'"
  shows "I g \<Longrightarrow> quits \<or> (\<forall>m\<in>set msgs. take 5 (snd m) \<noteq> ''KEY Q'')
         \<Longrightarrow> message_loop msgs g = Inr g' \<Longrightarrow> I g'"
proof (induction msgs arbitrary: g)
  case Nil
  then show ?case by simp
next
  case (Cons m msgs)
  obtain a msg where m: "m = (a, msg)" by (cases m)
  from Cons.prems(3) obtain g1 b where h: "handleMessage a msg g = Inr (g1, b)"
    and rest: "if b then g' = g1 else message_loop msgs g1 = Inr g'"
    by (auto simp: m split: sum.splits if_splits)
  have "I g1" using step [OF Cons.prems(1) _ h] Cons.prems(2) m by auto
  then show ?case using rest Cons.IH [of g1] Cons.prems(2) by (auto split: if_splits)
qed

lemma refresh_fields [simp]:
  "row (refresh_player g p) = row p" "col (refresh_player g p) = col p"
  "gold (refresh_player g p) = gold p" "alias' (refresh_player g p) = alias' p"
  "IP (refresh_player g p) = IP p" "justCollected (refresh_player g p) = 0"
  by (simp_all add: refresh_player_def)

subsection \<open>Gold conservation and positions inside the grid\<close>

lemma map_gold_set_position [simp]: "map gold (set_position k r c ps) = map gold ps"
  by (simp add: set_position_def map_update)

lemma gold_comp_refresh [simp]: "gold \<circ> refresh_player g = gold"
  by (rule ext) simp

lemma sum_list_update_int:
  fixes xs :: "int list"
  shows "k < length xs \<Longrightarrow> sum_list (xs[k := x]) = sum_list xs + x - xs ! k"
  by (induction xs arbitrary: k) (auto split: nat.splits)

lemma quit_step_gold [simp]:
  "goldLeft (quit_step ip p g) = goldLeft g" "goldCollected (quit_step ip p g) = goldCollected g"
  by (simp_all add: quit_step_def)

lemma pickup_conserved:
  assumes "conserved g" "who < length (players g)" "pickup_gold who g = Inr g'"
  shows "conserved g'"
  using assms
  by (auto simp: conserved_def purses_def pickup_gold_def rand_mod_def Let_def map_update
                 sum_list_update_int
           split: if_splits list.splits sum.splits)

lemma handleMessage_conserved:
  assumes "conserved g" "handleMessage from msg g = Inr (g', b)"
  shows "conserved g'"
proof (rule handleMessage_keeps [where I = conserved and quits = True and g = g and msg = msg
                                  and g' = g' and b = b and ?from = "from"])
  show "conserved g" by fact
  show "handleMessage from msg g = Inr (g', b)" by fact
  show "conserved (server_update_all_clients g')"
    if "conserved g" "who < length (players g)" "pickup_gold who g = Inr g'" for who g g'
    using pickup_conserved [OF that] by (simp add: conserved_def purses_def)
qed (simp_all add: conserved_def purses_def seat_player_def Let_def)

lemma find_spot_in_grid:
  "find_spot nr nc m rs = Inr (r, c, rs') \<Longrightarrow> in_grid m r c"
  by (drule find_spot_empty_spot) (auto simp: grid_isEmptyRoomSpot_def grid_getchar_def in_grid_def split: if_splits)

lemma list_all_set_position:
  "list_all P ps \<Longrightarrow> P ((ps ! k)\<lparr>row := r, col := c\<rparr>) \<Longrightarrow> list_all P (set_position k r c ps)"
  unfolding set_position_def list_all_iff by (metis insertE set_update_subset_insert subsetD)

lemma quit_step_dims [simp]:
  "in_grid (masterGrid (quit_step ip p g)) r c = in_grid (masterGrid g) r c"
  by (simp add: quit_step_def)

lemma in_grid_enter [simp]:
  "in_grid (masterGrid (enter_tile who r c g)) r' c' = in_grid (masterGrid g) r' c'"
  "in_grid (masterGrid (swap_tiles j who r c g)) r' c' = in_grid (masterGrid g) r' c'"
  by (simp_all add: in_grid_def)

lemma same_positions:
  assumes "map row ps' = map row ps" and "map col ps' = map col ps"
  shows "list_all (\<lambda>p. Q (row p) (col p)) ps' = list_all (\<lambda>p. Q (row p) (col p)) ps"
proof -
  have len: "length ps' = length ps" using assms(1) by (rule map_eq_imp_length_eq)
  have "row (ps' ! n) = row (ps ! n) \<and> col (ps' ! n) = col (ps ! n)" if "n < length ps" for n
    using that len assms by (metis nth_map)
  then show ?thesis by (simp add: list_all_length len)
qed

lemma pickup_all_in_grid:
  assumes "all_in_grid g" "pickup_gold who g = Inr g'"
  shows "all_in_grid g'"
proof -
  have m: "masterGrid g' = masterGrid g" using assms(2) by (rule pickup_gold_fields)
  show ?thesis using assms(1) unfolding all_in_grid_def m
    by (simp add: same_positions [OF pickup_gold_fields(8,9) [OF assms(2)]])
qed

lemma handleMessage_all_in_grid:
  assumes "all_in_grid g" "handleMessage from msg g = Inr (g', b)"
  shows "all_in_grid g'"
proof (rule handleMessage_keeps [where I = all_in_grid and quits = True and g = g and msg = msg
                                  and g' = g' and b = b and ?from = "from"])
  show "all_in_grid g" by fact
  show "handleMessage from msg g = Inr (g', b)" by fact
  show "all_in_grid (server_update_all_clients g')"
    if "all_in_grid g" "pickup_gold who g = Inr g'" for who g g'
    using pickup_all_in_grid [OF that] by (simp add: all_in_grid_def list_all_iff)
  show "all_in_grid (seat_player a name r c sg (g\<lparr>rands := rs\<rparr>))"
    if "all_in_grid g" "find_spot (GridRow g) (GridCol g) (masterGrid g) (rands g) = Inr (r, c, rs)"
    for a name r c rs sg g
    using that(1) find_spot_in_grid [OF that(2)]
    by (simp add: all_in_grid_def seat_player_def Let_def in_grid_def)
  show "all_in_grid (enter_tile who r c g)"
    if "all_in_grid g" "grid_canMoveTo (masterGrid g) r c" for who r c g
    using that(1) canMoveTo_in_grid [OF that(2)]
    by (auto simp: all_in_grid_def intro!: list_all_set_position)
  show "all_in_grid (swap_tiles j who r c g)"
    if "all_in_grid g" "who < length (players g)" "grid_canMoveTo (masterGrid g) r c" for j who r c g
  proof -
    have "in_grid (masterGrid g) (row (players g ! who)) (col (players g ! who))"
      using that(1,2) by (simp add: all_in_grid_def list_all_length)
    then show ?thesis
    using that(1) canMoveTo_in_grid [OF that(3)]
    by (auto simp: all_in_grid_def intro!: list_all_set_position)
  qed
qed (simp_all add: all_in_grid_def list_all_iff)

lemma drop_piles_fields:
  "drop_piles n g = Inr g' \<Longrightarrow>
     players g' = players g \<and> goldLeft g' = goldLeft g \<and> goldCollected g' = goldCollected g
     \<and> rawGrid g' = rawGrid g \<and> grid_ok (masterGrid g') = grid_ok (masterGrid g)"
proof (induction n arbitrary: g)
  case 0
  then show ?case by simp
next
  case (Suc n)
  from Suc.prems obtain r c rs where
    "drop_piles n (g\<lparr>rands := rs, masterGrid := grid_update (masterGrid g) r c CHR ''*''\<rparr>) = Inr g'"
    by (auto split: sum.splits)
  from Suc.IH [OF this] show ?case by simp
qed

lemma server_start_fields:
  assumes "server_start load pid libc_rand argv = Ready g0"
  shows "players g0 = []" "goldLeft g0 = GoldTotal" "goldCollected g0 = 0"
    "\<exists>m. load (argv ! 1) = Some m \<and> rawGrid g0 = m \<and> grid_ok (masterGrid g0) = grid_ok m"
proof -
  from assms obtain g s g1 x where p: "parseArgs load pid argv GAME_at_start = Inr (g, s)"
    and d: "drop_piles (nat (x + GoldMinNumPiles))
              (g1\<lparr>GoldNumPilesLeft := x + GoldMinNumPiles, goldCollected := 0, goldLeft := GoldTotal\<rparr>) = Inr g0"
    and r: "rand_mod (GoldMaxNumPiles - GoldMinNumPiles) (g\<lparr>rands := libc_rand s\<rparr>) = Inr (x, g1)"
    by (auto simp: server_start_def server_drop_gold_def split: sum.splits)
  from r have g1: "players g1 = players g" "rawGrid g1 = rawGrid g" "masterGrid g1 = masterGrid g"
    by (auto simp: rand_mod_def split: list.splits if_splits)
  from p have g: "players g = []"
    "\<exists>m. load (argv ! 1) = Some m \<and> rawGrid g = m \<and> masterGrid g = m"
    by (auto simp: parseArgs_def GAME_at_start_def Let_def split: if_splits option.splits)
  from drop_piles_fields [OF d] g g1
  show "players g0 = []" "goldLeft g0 = GoldTotal" "goldCollected g0 = 0"
    "\<exists>m. load (argv ! 1) = Some m \<and> rawGrid g0 = m \<and> grid_ok (masterGrid g0) = grid_ok m"
    by auto
qed

lemma message_loop_conserved:
  "conserved g \<Longrightarrow> message_loop msgs g = Inr g' \<Longrightarrow> conserved g'"
  by (rule message_loop_keeps [where I = conserved and quits = True and msgs = msgs and g = g])
     (auto intro: handleMessage_conserved)

lemma message_loop_all_in_grid:
  "all_in_grid g \<Longrightarrow> message_loop msgs g = Inr g' \<Longrightarrow> all_in_grid g'"
  by (rule message_loop_keeps [where I = all_in_grid and quits = True and msgs = msgs and g = g])
     (auto intro: handleMessage_all_in_grid)

subsection \<open>Joining\<close>

text \<open>
  Claim C9. When a \<^verbatim>\<open>PLAY\<close> message arrives while the table holds 26 players, the
  server sends exactly \<^verbatim>\<open>QUIT Game is full: no more players can join.\<close> to the sender
  and nothing else changes: the game afterwards is the game before with that one message
  added to the messages sent, so the table, both grids and the gold accounting are the
  same, and the handler returns false.
\<close>

theorem play_when_full:
  assumes "numPlayer g = MaxPlayers" and "take 5 msg = ''PLAY ''"
  shows "handleMessage from msg g =
           Inr (g\<lparr>sent := sent g @ [(from, ''QUIT Game is full: no more players can join.'')]\<rparr>,
                False)"
  using assms by (simp add: handleMessage_def handlePlay_def message_send_def)

theorem play_when_full_witness:
  "numPlayer full_house = MaxPlayers \<and> take 5 ''PLAY Zoe'' = ''PLAY '' \<and>
   handleMessage addrA ''PLAY Zoe'' full_house =
     Inr (full_house\<lparr>sent := sent full_house
            @ [(addrA, ''QUIT Game is full: no more players can join.'')]\<rparr>, False)"
  using play_when_full [of full_house "''PLAY Zoe''" addrA]
  by (simp add: numPlayer_def full_house_def MaxPlayers_def)

lemma isblank_of_comparison: "\<not> isblank (char_of (if ch = CHR 0x00 then 1 else 0 :: nat))"
  by (simp add: isblank_def)

text \<open>
  Claim C8 says that the stored name has \<^verbatim>\<open>_\<close> in place of every byte that is neither
  graphic nor blank. The loop of \<^verbatim>\<open>handlePlay\<close> never takes that branch: the stored
  name is the first 50 bytes of the name as they are. For the name \<^verbatim>\<open>a\<close>, byte 1,
  \<^verbatim>\<open>b\<close> the byte 1 is neither graphic nor blank, and it is stored unchanged.
\<close>

theorem stored_name_keeps_control_byte:
  "\<not> isgraph (CHR 0x01) \<and> \<not> isblank (CHR 0x01) \<and>
   stored_name [CHR ''a'', CHR 0x01, CHR ''b''] = [CHR ''a'', CHR 0x01, CHR ''b'']"
  by (simp add: stored_name_def isblank_def isgraph_def MaxNameLength_def)

lemma stored_name_is_prefix: "stored_name name = take MaxNameLength name"
  by (simp add: stored_name_def isblank_of_comparison)

subsection \<open>The seed\<close>

text \<open>
  Claim C5 says that with three arguments the generator is seeded with the seed given on
  the command line. \<^verbatim>\<open>parseArgs\<close> parses and checks that argument, and then calls
  \<^verbatim>\<open>srand(GAME.seed)\<close>, a field that nothing assigns: with the seed \<^verbatim>\<open>42\<close> the
  argument of \<^verbatim>\<open>srand\<close> is 0.
\<close>

theorem parseArgs_seed_42:
  "atoi ''42'' = 42 \<and>
   parseArgs (\<lambda>f. Some row12) 4711 [''server'', ''map.txt'', ''42''] GAME_at_start =
     Inr (GAME_at_start\<lparr>masterGrid := row12, rawGrid := row12, GridCol := 12, GridRow := 1\<rparr>, 0)"
  by (simp add: parseArgs_def atoi_def strtol_def long_to_int_def isspace_def isdigit_def GAME_at_start_def
                grid_ncol_def grid_nrow_def row12_def)

lemma atoi_beyond_int: "atoi ''2147483648'' = - 2147483648"
  by (simp add: atoi_def strtol_def long_to_int_def isspace_def isdigit_def)

lemma parseArgs_three_arguments:
  "length argv = 3 \<Longrightarrow> parseArgs load pid argv g = Inr (g', s) \<Longrightarrow> s = seed g"
  by (auto simp: parseArgs_def Let_def split: option.splits if_splits)

lemma parseArgs_two_arguments:
  "length argv = 2 \<Longrightarrow> parseArgs load pid argv g = Inr (g', s) \<Longrightarrow> s = pid"
  by (auto simp: parseArgs_def split: option.splits)

subsection \<open>Picking up gold\<close>

lemma c_rem_nonneg: "0 < n \<Longrightarrow> c_rem (int x) n = int x mod n"
  by (cases "x = 0") (simp_all add: c_rem_def)

text \<open>What \<^verbatim>\<open>pickup_gold\<close> returns when the modulus \<open>goldLeft - GoldNumPilesLeft + 1\<close> is
  positive and \<^verbatim>\<open>rand()\<close> has a value \<open>x\<close> to give.\<close>

lemma pickup_gold_amount:
  assumes who: "who < length (players g)"
    and inv: "GoldNumPilesLeft g \<le> goldLeft g"
    and draw: "rands g = x # rs"
  shows "\<exists>amount. 
           (if GoldNumPilesLeft g = 1 then amount = goldLeft g
               else 1 \<le> amount \<and> amount \<le> goldLeft g - GoldNumPilesLeft g + 1
                    \<and> amount = int x mod (goldLeft g - GoldNumPilesLeft g + 1) + 1)
           \<and> pickup_gold who g =
               Inr (g\<lparr>rands := (if GoldNumPilesLeft g = 1 then rands g else rs),
                     players := (players g)[who := (players g ! who)
                          \<lparr>gold := gold (players g ! who) + amount, justCollected := amount\<rparr>],
                     goldCollected := goldCollected g + amount, goldLeft := goldLeft g - amount,
                     GoldNumPilesLeft := GoldNumPilesLeft g - 1\<rparr>)"
proof (cases "GoldNumPilesLeft g = 1")
  case True
  then show ?thesis by (simp add: pickup_gold_def)
next
  case False
  let ?n = "goldLeft g - GoldNumPilesLeft g + 1"
  have n: "0 < ?n" using inv by simp
  define a where "a = int x mod ?n + 1"
  have lo: "0 \<le> int x mod ?n" using n by (rule pos_mod_sign)
  have hi: "int x mod ?n < ?n" using n by (rule pos_mod_bound)
  have bounds: "1 \<le> a" "a \<le> ?n" unfolding a_def using lo hi by linarith+
  have run: "pickup_gold who g =
      Inr (g\<lparr>rands := rs,
            players := (players g)[who := (players g ! who)
                          \<lparr>gold := gold (players g ! who) + a, justCollected := a\<rparr>],
            goldCollected := goldCollected g + a, goldLeft := goldLeft g - a,
            GoldNumPilesLeft := GoldNumPilesLeft g - 1\<rparr>)"
    using False draw n by (simp add: pickup_gold_def rand_mod_def c_rem_nonneg a_def)
  show ?thesis
    unfolding run using False bounds by (intro exI [of _ a]) (simp add: a_def)
qed


subsection \<open>Quitting\<close>

lemma handleQUIT_alt:
  "handleQUIT ip g = server_update_all_clients (fold (quit_step ip) (players g)
       (if message_eqAddr (spectatorIP g) ip
                then message_send (spectatorIP g) ''QUIT Thanks for watching!'' g else g))"
  by (simp add: handleQUIT_def Let_def)

lemma quit_fold_fields [simp]:
  "rawGrid (fold (quit_step ip) ps g) = rawGrid g"
  "players (fold (quit_step ip) ps g) = players g"
  "grid_ok (masterGrid (fold (quit_step ip) ps g)) = grid_ok (masterGrid g)"
  "in_grid (masterGrid (fold (quit_step ip) ps g)) r c = in_grid (masterGrid g) r c"
  "GoldNumPilesLeft (fold (quit_step ip) ps g) = GoldNumPilesLeft g"
  "goldLeft (fold (quit_step ip) ps g) = goldLeft g"
  "goldCollected (fold (quit_step ip) ps g) = goldCollected g"
  by (induction ps arbitrary: g; simp add: quit_step_def)+

lemma quit_fold_sent:
  "sent (fold (quit_step ip) ps g) =
     sent g @ map (\<lambda>p. (ip, ''QUIT Thanks for playing!'')) (filter (\<lambda>p. message_eqAddr ip (IP p)) ps)"
  by (induction ps arbitrary: g) (simp_all add: quit_step_def)

lemma quit_fold_master:
  assumes "grid_ok (masterGrid g)"
  shows "grid_getchar (masterGrid (fold (quit_step ip) ps g)) r c =
           (if (\<exists>p\<in>set ps. message_eqAddr ip (IP p) \<and> row p = r \<and> col p = c)
               \<and> in_grid (masterGrid g) r c
            then grid_getchar (rawGrid g) r c else grid_getchar (masterGrid g) r c)"
  using assms
proof (induction ps arbitrary: g)
  case Nil
  then show ?case by simp
next
  case (Cons p ps)
  have ok: "grid_ok (masterGrid (quit_step ip p g))"
    using Cons.prems by (simp add: quit_step_def)
  have raw: "rawGrid (quit_step ip p g) = rawGrid g" by (simp add: quit_step_def)
  have inb: "in_grid (masterGrid (quit_step ip p g)) r c = in_grid (masterGrid g) r c"
    by (simp add: quit_step_def)
  show ?case
    using Cons.prems
    by (simp add: Cons.IH [OF ok] raw inb) (auto simp: quit_step_def getchar_update)
qed

lemma update_all_sent:
  "\<exists>out. sent (server_update_all_clients g) = sent g @ out"
  by (simp add: server_update_all_clients_def Let_def)

text \<open>
  Claim C7, amended. For every player of the table, a \<^verbatim>\<open>KEY\<close> message from that
  player's address whose key is the upper-case \<^verbatim>\<open>Q\<close> makes the server reply
  \<^verbatim>\<open>QUIT Thanks for playing!\<close> to the sender and restore the player's tile of the master
  grid to the raw tile, and the handler returns false: the game continues. (The master
  grid is well formed and the player stands inside it.)
\<close>

theorem key_Q_quits:
  assumes seated: "p \<in> set (players g)" and sender: "message_eqAddr from (IP p)"
    and ok: "grid_ok (masterGrid g)" and inb: "in_grid (masterGrid g) (row p) (col p)"
    and key: "take 5 msg = ''KEY Q''"
  shows "\<exists>g' out. handleMessage from msg g = Inr (g', False)
           \<and> sent g' = sent g @ out \<and> (from, ''QUIT Thanks for playing!'') \<in> set out
           \<and> grid_getchar (masterGrid g') (row p) (col p)
               = grid_getchar (rawGrid g) (row p) (col p)"
proof -
  from key have "msg = ''KEY Q'' @ drop 5 msg" by (metis append_take_drop_id)
  then obtain rest where msg: "msg = ''KEY Q'' @ rest" ..
  have run: "handleMessage from msg g = Inr (handleQUIT from g, False)"
    by (simp add: msg handleMessage_def handleKEY_def)
  let ?g1 = "if message_eqAddr (spectatorIP g) from
             then message_send (spectatorIP g) ''QUIT Thanks for watching!'' g else g"
  let ?g2 = "fold (quit_step from) (players g) ?g1"
  have g1: "players ?g1 = players g" "masterGrid ?g1 = masterGrid g" "rawGrid ?g1 = rawGrid g"
    by simp_all
  obtain o1 where o1: "sent ?g1 = sent g @ o1" by (cases "message_eqAddr (spectatorIP g) from") simp_all
  have s2: "sent ?g2 = sent ?g1 @ map (\<lambda>p. (from, ''QUIT Thanks for playing!''))
                          (filter (\<lambda>p. message_eqAddr from (IP p)) (players g))"
    by (simp only: quit_fold_sent g1)
  obtain o3 where o3: "sent (server_update_all_clients ?g2) = sent ?g2 @ o3"
    using update_all_sent by blast
  have mem: "(from, ''QUIT Thanks for playing!'')
               \<in> set (map (\<lambda>p. (from, ''QUIT Thanks for playing!''))
                          (filter (\<lambda>p. message_eqAddr from (IP p)) (players g)))"
    using seated sender by auto
  have tile: "grid_getchar (masterGrid ?g2) (row p) (col p) = grid_getchar (rawGrid g) (row p) (col p)"
    using quit_fold_master [of ?g1 "from" "players g" "row p" "col p"] ok inb seated sender
    by (auto simp only: g1 split: if_splits)
  show ?thesis
    unfolding run handleQUIT_alt
    apply (intro exI [of _ "server_update_all_clients ?g2"])
    apply (intro exI [of _ "o1 @ map (\<lambda>p. (from, ''QUIT Thanks for playing!''))
                          (filter (\<lambda>p. message_eqAddr from (IP p)) (players g)) @ o3"])
    using o1 s2 o3 mem tile by simp
qed

theorem key_Q_quits_witness:
  "players two_seated ! 0 \<in> set (players two_seated)
   \<and> message_eqAddr addrA (IP (players two_seated ! 0))
   \<and> grid_ok (masterGrid two_seated)
   \<and> in_grid (masterGrid two_seated) (row (players two_seated ! 0)) (col (players two_seated ! 0))
   \<and> take 5 ''KEY Q'' = ''KEY Q''
   \<and> (\<exists>g' out. handleMessage addrA ''KEY Q'' two_seated = Inr (g', False)
          \<and> sent g' = sent two_seated @ out \<and> (addrA, ''QUIT Thanks for playing!'') \<in> set out
          \<and> grid_getchar (masterGrid g') (row (players two_seated ! 0)) (col (players two_seated ! 0))
              = grid_getchar (rawGrid two_seated)
                  (row (players two_seated ! 0)) (col (players two_seated ! 0)))"
  using key_Q_quits [of "players two_seated ! 0" two_seated addrA "''KEY Q''"]
  by (simp add: two_seated_def message_eqAddr_def addrA_def grid_ok_def in_grid_def)

text \<open>
  Claim C7 as stated fails for the lower-case key: \<^verbatim>\<open>KEY q\<close> from a player of the table
  is an unknown keystroke. The server answers \<^verbatim>\<open>ERROR Unknown Keystroke: q\<close>, sends no
  \<^verbatim>\<open>QUIT\<close>, and the player's tile of the master grid keeps the letter.
\<close>

theorem key_q_counterexample:
  "handleMessage addrA ''KEY q'' two_seated =
     Inr (two_seated\<lparr>sent := [(addrA, ''ERROR Unknown Keystroke: q'')]\<rparr>, False)
   \<and> grid_getchar (masterGrid two_seated) 0 10 = CHR ''A''
   \<and> grid_getchar (rawGrid two_seated) 0 10 = CHR ''.''"
  by (simp add: handleMessage_def handleKEY_def step_key_def run_key_def two_seated_def
                message_eqAddr_def addrA_def addrB_def message_send_def grid_getchar_def row12_def)


subsection \<open>Letters on the master grid\<close>

lemma alias_inj:
  assumes "i < 26" "j < 26" "(char_of (65 + int i) :: char) = char_of (65 + int j)"
  shows "i = j"
proof -
  have "(65 + int i) mod 256 = (65 + int j) mod 256"
    using assms(3) by (simp add: char_of_eq_iff take_bit_eq_mod)
  then show ?thesis using assms(1,2) by simp
qed

lemma alias_isalpha: "i < 26 \<Longrightarrow> isalpha (char_of (65 + int i))"
proof -
  assume "i < 26"
  have "(char_of (65 + int i) :: char) = char_of (65 + i)"
    using char_of_nat [of "65 + i", where ?'a = int] by simp
  then have "of_char (char_of (65 + int i) :: char) = 65 + i"
    using \<open>i < 26\<close> by simp
  then show ?thesis using \<open>i < 26\<close> by (simp add: isalpha_def)
qed

lemma alias_not_spot: "i < 26 \<Longrightarrow> (char_of (65 + int i) :: char) \<noteq> CHR ''.''"
  using alias_isalpha [of i] by (auto simp: isalpha_def)

lemma lettered_distinct:
  assumes "lettered g" "i < length (players g)" "j < length (players g)"
    "row (players g ! i) = row (players g ! j)" "col (players g ! i) = col (players g ! j)"
  shows "i = j"
proof -
  have "alias' (players g ! i) = alias' (players g ! j)"
    using assms by (metis lettered_def)
  moreover have "i < 26" "j < 26" using assms(1-3) by (auto simp: lettered_def)
  ultimately show ?thesis using assms(1-3) alias_inj by (metis lettered_def)
qed

lemma lettered_isPlayer:
  assumes "lettered g" "i < length (players g)"
  shows "grid_isPlayer (masterGrid g) (row (players g ! i)) (col (players g ! i))"
proof -
  have "i < 26" using assms by (auto simp: lettered_def)
  then show ?thesis using assms alias_isalpha [of i] by (simp add: lettered_def grid_isPlayer_def)
qed

lemma lettered_distinct_positions: "lettered g \<Longrightarrow> distinct (positions g)"
  unfolding positions_def distinct_conv_nth
  by (auto dest: lettered_distinct)

lemma nth_set_position:
  "i < length ps \<Longrightarrow> set_position k r c ps ! i = (if i = k then (ps ! k)\<lparr>row := r, col := c\<rparr> else ps ! i)"
  by (simp add: set_position_def nth_list_update)

lemma lettered_bcast: "lettered g \<Longrightarrow> lettered (server_update_all_clients g)"
  by (simp add: lettered_def)

lemma lettered_join:
  assumes l: "lettered g" and n: "numPlayer g \<noteq> MaxPlayers"
    and f: "find_spot (GridRow g) (GridCol g) (masterGrid g) (rands g) = Inr (r, c, rs)"
  shows "lettered (seat_player a name r c sg (g\<lparr>rands := rs\<rparr>))"
proof -
  let ?n = "length (players g)"
  let ?m = "grid_update (masterGrid g) r c (char_of (65 + int ?n))"
  have ok: "grid_ok (masterGrid g)" using l by (simp add: lettered_def)
  have spot: "grid_getchar (masterGrid g) r c = CHR ''.''"
    using find_spot_empty_spot [OF f] by (simp add: grid_isEmptyRoomSpot_def)
  have inb: "in_grid (masterGrid g) r c" using find_spot_in_grid [OF f] .
  have len: "?n < 26" using l n by (simp add: lettered_def numPlayer_def MaxPlayers_def)
  have old: "grid_getchar ?m (row (players g ! i)) (col (players g ! i)) = alias' (players g ! i)"
    if "i < ?n" for i
  proof -
    have "grid_getchar (masterGrid g) (row (players g ! i)) (col (players g ! i)) = char_of (65 + int i)"
      using l that by (simp add: lettered_def)
    moreover have "(char_of (65 + int i) :: char) \<noteq> CHR ''.''" using that len by (intro alias_not_spot) simp
    ultimately have "\<not> (row (players g ! i) = r \<and> col (players g ! i) = c)" using spot by auto
    then show ?thesis using l that by (auto simp: getchar_update [OF ok] lettered_def)
  qed
  have new: "grid_getchar ?m r c = char_of (65 + int ?n)"
    using inb by (simp add: getchar_update [OF ok])
  show ?thesis
    unfolding lettered_def seat_player_def Let_def
    using l len inb old new
    by (auto simp: numPlayer_def nth_append lettered_def less_Suc_eq)
qed


lemma pickup_gold_nth:
  assumes "pickup_gold who g = Inr g'" "i < length (players g)"
  shows "row (players g' ! i) = row (players g ! i)" "col (players g' ! i) = col (players g ! i)"
    "alias' (players g' ! i) = alias' (players g ! i)" "IP (players g' ! i) = IP (players g ! i)"
proof -
  note f = pickup_gold_fields [OF assms(1)]
  have i': "i < length (players g')" using assms(2) f(7) by simp
  show "row (players g' ! i) = row (players g ! i)"
    using nth_map [OF i', of row] nth_map [OF assms(2), of row] f(8) by simp
  show "col (players g' ! i) = col (players g ! i)"
    using nth_map [OF i', of col] nth_map [OF assms(2), of col] f(9) by simp
  show "alias' (players g' ! i) = alias' (players g ! i)"
    using nth_map [OF i', of alias'] nth_map [OF assms(2), of alias'] f(10) by simp
  show "IP (players g' ! i) = IP (players g ! i)"
    using nth_map [OF i', of IP] nth_map [OF assms(2), of IP] f(11) by simp
qed

lemma lettered_pickup:
  assumes "lettered g" "pickup_gold who g = Inr g'"
  shows "lettered g'"
  using assms(1) pickup_gold_fields(1,7) [OF assms(2)] pickup_gold_nth [OF assms(2)]
  by (simp add: lettered_def)

lemma getchar_update_twice:
  assumes "grid_ok M" "in_grid M r c" "in_grid M ro co"
  shows "grid_getchar (grid_update (grid_update M ro co a) r c b) x y =
           (if x = r \<and> y = c then b else if x = ro \<and> y = co then a else grid_getchar M x y)"
proof -
  have "grid_ok (grid_update M ro co a)" using assms(1) by simp
  from getchar_update [OF this] getchar_update [OF assms(1)] assms(2,3) show ?thesis by simp
qed

lemma lettered_enter:
  assumes l: "lettered g" and who: "who < length (players g)"
    and can: "grid_canMoveTo (masterGrid g) r c" and free: "\<not> grid_isPlayer (masterGrid g) r c"
  shows "lettered (enter_tile who r c g)"
proof -
  let ?ps = "players g" and ?M = "masterGrid g"
  let ?ro = "row (?ps ! who)" and ?co = "col (?ps ! who)"
  let ?m1 = "grid_update ?M ?ro ?co (grid_getchar (rawGrid g) ?ro ?co)"
  let ?m2 = "grid_update ?m1 r c (alias' (?ps ! who))"
  have ok: "grid_ok ?M" using l by (simp add: lettered_def)
  have ok1: "grid_ok ?m1" using ok by simp
  have inb: "in_grid ?M r c" using can by (rule canMoveTo_in_grid)
  have m: "masterGrid (enter_tile who r c g) = ?m2"
    using who by (simp add: enter_tile_def Let_def nth_set_position)
  have inbo: "in_grid ?M ?ro ?co" using l who by (simp add: lettered_def)
  note tile = getchar_update_twice [OF ok inb inbo]
  have "alias' (set_position who r c ?ps ! i) = char_of (65 + int i)
        \<and> in_grid ?m2 (row (set_position who r c ?ps ! i)) (col (set_position who r c ?ps ! i))
        \<and> grid_getchar ?m2 (row (set_position who r c ?ps ! i)) (col (set_position who r c ?ps ! i))
            = alias' (set_position who r c ?ps ! i)"
    if i: "i < length ?ps" for i
  proof (cases "i = who")
    case True
    then show ?thesis using l who inb by (auto simp: nth_set_position tile lettered_def)
  next
    case False
    have "grid_isPlayer ?M (row (?ps ! i)) (col (?ps ! i))" using l i by (rule lettered_isPlayer)
    then have n1: "\<not> (row (?ps ! i) = r \<and> col (?ps ! i) = c)" using free by auto
    have n2: "\<not> (row (?ps ! i) = ?ro \<and> col (?ps ! i) = ?co)"
      using lettered_distinct [OF l i who] False by auto
    show ?thesis using l i False n1 n2 by (auto simp: nth_set_position tile lettered_def)
  qed
  then show ?thesis using l ok unfolding lettered_def m by simp
qed

lemma lettered_swap:
  assumes l: "lettered g" and who: "who < length (players g)"
    and first: "first_player_at (players g) r c = Some j"
  shows "lettered (swap_tiles j who r c g)"
proof -
  let ?ps = "players g" and ?M = "masterGrid g"
  let ?ro = "row (?ps ! who)" and ?co = "col (?ps ! who)"
  let ?ps1 = "set_position j ?ro ?co ?ps"
  let ?ps2 = "set_position who r c ?ps1"
  let ?m1 = "grid_update ?M ?ro ?co (alias' (?ps ! j))"
  let ?m2 = "grid_update ?m1 r c (alias' (?ps ! who))"
  have j: "j < length ?ps" using first by (rule first_player_at_bound)
  have posj: "row (?ps ! j) = r" "col (?ps ! j) = c"
    using first_player_at_position [OF first] by simp_all
  have ok: "grid_ok ?M" using l by (simp add: lettered_def)
  have ok1: "grid_ok ?m1" using ok by simp
  have inb: "in_grid ?M r c" "in_grid ?M ?ro ?co" using l j who posj by (auto simp: lettered_def)
  have a1: "alias' (?ps1 ! j) = alias' (?ps ! j)" using j by (simp add: nth_set_position)
  have a2: "alias' (?ps2 ! who) = alias' (?ps ! who)" using who j by (simp add: nth_set_position)
  have m: "masterGrid (swap_tiles j who r c g) = ?m2"
    by (simp add: swap_tiles_def Let_def a1 a2)
  note tile = getchar_update_twice [OF ok inb]
  have "alias' (?ps2 ! i) = char_of (65 + int i)
        \<and> in_grid ?m2 (row (?ps2 ! i)) (col (?ps2 ! i))
        \<and> grid_getchar ?m2 (row (?ps2 ! i)) (col (?ps2 ! i)) = alias' (?ps2 ! i)"
    if i: "i < length ?ps" for i
  proof -
    consider (mover) "i = who" | (other) "i = j" "i \<noteq> who" | (rest) "i \<noteq> who" "i \<noteq> j" by auto
    then show ?thesis
    proof cases
      case mover
      then show ?thesis using l who j inb by (auto simp: nth_set_position tile lettered_def)
    next
      case other
      have "\<not> (?ro = r \<and> ?co = c)" using lettered_distinct [OF l j who] posj other by auto
      then show ?thesis using l who j inb other by (auto simp: nth_set_position tile lettered_def)
    next
      case rest
      have n1: "\<not> (row (?ps ! i) = r \<and> col (?ps ! i) = c)"
        using lettered_distinct [OF l i j] posj rest by auto
      have n2: "\<not> (row (?ps ! i) = ?ro \<and> col (?ps ! i) = ?co)"
        using lettered_distinct [OF l i who] rest by auto
      show ?thesis using l i rest n1 n2 by (auto simp: nth_set_position tile lettered_def)
    qed
  qed
  then show ?thesis using l ok unfolding lettered_def m by simp
qed

lemma handleMessage_lettered:
  assumes "lettered g" "take 5 msg \<noteq> ''KEY Q''" "handleMessage from msg g = Inr (g', b)"
  shows "lettered g'"
proof (rule handleMessage_keeps [where I = lettered and quits = False and g = g and msg = msg
                                  and g' = g' and b = b and ?from = "from"])
  show "lettered g" by fact
  show "handleMessage from msg g = Inr (g', b)" by fact
  show "False \<or> take 5 msg \<noteq> ''KEY Q''" using assms(2) by simp
  show "lettered (server_update_all_clients g')"
    if "lettered g" "pickup_gold who g = Inr g'" for who g g'
    using lettered_pickup [OF that] by (rule lettered_bcast)
  show "lettered (message_send a s g)" if "lettered g" for a s g
    using that by (simp add: lettered_def)
  show "lettered (g\<lparr>spectatorIP := a\<rparr>)" if "lettered g" for a g
    using that by (simp add: lettered_def)
  show "lettered (server_update_all_clients g)" if "lettered g" for g
    using that by (rule lettered_bcast)
  show "lettered (seat_player a name r c sg (g\<lparr>rands := rs\<rparr>))"
    if "lettered g" "numPlayer g \<noteq> MaxPlayers"
      "find_spot (GridRow g) (GridCol g) (masterGrid g) (rands g) = Inr (r, c, rs)"
    for a name r c rs sg g
    using that by (rule lettered_join)
  show "lettered (enter_tile who r c g)"
    if "lettered g" "who < length (players g)" "grid_canMoveTo (masterGrid g) r c"
      "\<not> grid_isPlayer (masterGrid g) r c" for who r c g
    using that by (rule lettered_enter)
  show "lettered (swap_tiles j who r c g)"
    if "lettered g" "who < length (players g)" "first_player_at (players g) r c = Some j"
    for j who r c g
    using that by (rule lettered_swap)
qed simp

lemma message_loop_lettered:
  "lettered g \<Longrightarrow> \<forall>m\<in>set msgs. take 5 (snd m) \<noteq> ''KEY Q'' \<Longrightarrow> message_loop msgs g = Inr g'
   \<Longrightarrow> lettered g'"
  by (rule message_loop_keeps [where I = lettered and quits = False and msgs = msgs and g = g])
     (auto intro: handleMessage_lettered)

subsection \<open>A run and the single steps\<close>

lemma set_cells: "set (cells g) = {(r, c). in_grid g r c}"
  by (auto simp: cells_def in_grid_def)

lemma isPlayer_in_grid: "grid_isPlayer g r c \<Longrightarrow> in_grid g r c"
  by (auto simp: grid_isPlayer_def grid_getchar_def in_grid_def isalpha_def split: if_splits)

lemma letters_occupied_iff:
  "letters_occupied g \<longleftrightarrow>
     grid_ok (masterGrid g) \<and> (\<forall>r c. \<not> grid_isPlayer (rawGrid g) r c)
     \<and> (\<forall>r c. grid_isPlayer (masterGrid g) r c \<longrightarrow> (r, c) \<in> set (positions g))"
  unfolding letters_occupied_def list_all_iff set_cells
  using isPlayer_in_grid by simp blast

lemma step_run_keys [simp]:
  "step_key (step_char d) = Some d" "run_key (run_char d) = Some d"
  "step_key (run_char d) = None" "step_char d \<noteq> CHR ''Q''" "run_char d \<noteq> CHR ''Q''"
  by (cases d; simp add: step_key_def run_key_def)+


lemma positions_bcast [simp]: "positions (server_update_all_clients g) = positions g"
  by (simp add: positions_def comp_def)

lemma positions_nth:
  "i < length (players g) \<Longrightarrow> positions g ! i = (row (players g ! i), col (players g ! i))"
  by (simp add: positions_def)

lemma in_positions_iff:
  "(r, c) \<in> set (positions g) \<longleftrightarrow> (\<exists>i < length (players g). row (players g ! i) = r \<and> col (players g ! i) = c)"
proof
  assume "(r, c) \<in> set (positions g)"
  then obtain i where "i < length (positions g)" "positions g ! i = (r, c)"
    by (auto simp: in_set_conv_nth)
  then show "\<exists>i < length (players g). row (players g ! i) = r \<and> col (players g ! i) = c"
    by (auto simp: positions_def)
next
  assume "\<exists>i < length (players g). row (players g ! i) = r \<and> col (players g ! i) = c"
  then obtain i where i: "i < length (players g)" "row (players g ! i) = r" "col (players g ! i) = c"
    by auto
  then have "positions g ! i = (r, c)" "i < length (positions g)" by (simp_all add: positions_def)
  then show "(r, c) \<in> set (positions g)" by (metis nth_mem)
qed

lemma first_player_at_None_iff:
  "first_player_at ps r c = None \<longleftrightarrow> (\<forall>p\<in>set ps. \<not> (row p = r \<and> col p = c))"
  by (induction ps) auto

lemma pickup_positions:
  assumes "pickup_gold who g = Inr g'"
  shows "positions g' = positions g"
proof (rule nth_equalityI)
  show "length (positions g') = length (positions g)"
    using pickup_gold_fields(7) [OF assms] by (simp add: positions_def)
  fix i assume "i < length (positions g')"
  then have i: "i < length (players g)" using pickup_gold_fields(7) [OF assms] by (simp add: positions_def)
  then show "positions g' ! i = positions g ! i"
    using pickup_gold_nth [OF assms i] pickup_gold_fields(7) [OF assms] by (simp add: positions_def)
qed

lemma letters_occupied_enter:
  assumes l: "letters_occupied g" and who: "who < length (players g)"
    and can: "grid_canMoveTo (masterGrid g) r c"
  shows "letters_occupied (enter_tile who r c g)"
proof -
  let ?ps = "players g" and ?M = "masterGrid g"
  let ?ro = "row (?ps ! who)" and ?co = "col (?ps ! who)"
  let ?m1 = "grid_update ?M ?ro ?co (grid_getchar (rawGrid g) ?ro ?co)"
  let ?m2 = "grid_update ?m1 r c (alias' (?ps ! who))"
  note L = l [unfolded letters_occupied_iff]
  have ok: "grid_ok ?M" using L by simp
  have ok1: "grid_ok ?m1" using ok by simp
  have inb: "in_grid ?M r c" using can by (rule canMoveTo_in_grid)
  have m: "masterGrid (enter_tile who r c g) = ?m2"
    using who by (simp add: enter_tile_def Let_def nth_set_position)
  have "(x, y) \<in> set (positions (enter_tile who r c g))" if p: "grid_isPlayer ?m2 x y" for x y
  proof (cases "x = r \<and> y = c")
    case True
    then show ?thesis using who by (auto simp: in_positions_iff nth_set_position intro!: exI [of _ who])
  next
    case False
    show ?thesis
    proof (cases "x = ?ro \<and> y = ?co \<and> in_grid ?M ?ro ?co")
      case True
      then have "grid_getchar ?m2 x y = grid_getchar (rawGrid g) ?ro ?co"
        using False by (auto simp: getchar_update [OF ok1] getchar_update [OF ok])
      then have "grid_isPlayer (rawGrid g) ?ro ?co" using p by (simp add: grid_isPlayer_def)
      then show ?thesis using L by simp
    next
      case nold: False
      then have "grid_getchar ?m2 x y = grid_getchar ?M x y"
        using False by (auto simp: getchar_update [OF ok1] getchar_update [OF ok])
      then have pm: "grid_isPlayer ?M x y" using p by (simp add: grid_isPlayer_def)
      then have "(x, y) \<in> set (positions g)" using L by simp
      then obtain i where i: "i < length ?ps" "row (?ps ! i) = x" "col (?ps ! i) = y"
        by (auto simp: in_positions_iff)
      have "i \<noteq> who" using i nold isPlayer_in_grid [OF pm] by auto
      then show ?thesis using i by (auto simp: in_positions_iff nth_set_position intro!: exI [of _ i])
    qed
  qed
  then show ?thesis using L ok unfolding letters_occupied_iff m by simp
qed

lemma letters_occupied_swap:
  assumes l: "letters_occupied g" and who: "who < length (players g)"
    and first: "first_player_at (players g) r c = Some j"
  shows "letters_occupied (swap_tiles j who r c g)"
proof -
  let ?ps = "players g" and ?M = "masterGrid g"
  let ?ro = "row (?ps ! who)" and ?co = "col (?ps ! who)"
  let ?ps1 = "set_position j ?ro ?co ?ps"
  let ?ps2 = "set_position who r c ?ps1"
  let ?m1 = "grid_update ?M ?ro ?co (alias' (?ps ! j))"
  let ?m2 = "grid_update ?m1 r c (alias' (?ps ! who))"
  note L = l [unfolded letters_occupied_iff]
  have j: "j < length ?ps" using first by (rule first_player_at_bound)
  have posj: "row (?ps ! j) = r" "col (?ps ! j) = c"
    using first_player_at_position [OF first] by simp_all
  have ok: "grid_ok ?M" using L by simp
  have ok1: "grid_ok ?m1" using ok by simp
  have a1: "alias' (?ps1 ! j) = alias' (?ps ! j)" using j by (simp add: nth_set_position)
  have a2: "alias' (?ps2 ! who) = alias' (?ps ! who)" using who j by (simp add: nth_set_position)
  have m: "masterGrid (swap_tiles j who r c g) = ?m2"
    by (simp add: swap_tiles_def Let_def a1 a2)
  have ps: "players (swap_tiles j who r c g) = ?ps2" by simp
  have "(x, y) \<in> set (positions (swap_tiles j who r c g))" if p: "grid_isPlayer ?m2 x y" for x y
  proof (cases "x = r \<and> y = c")
    case True
    then show ?thesis using who j
      by (auto simp: in_positions_iff nth_set_position intro!: exI [of _ who])
  next
    case False
    show ?thesis
    proof (cases "x = ?ro \<and> y = ?co")
      case True
      have "j \<noteq> who" using True False posj by auto
      then show ?thesis using True who j
        by (auto simp: in_positions_iff nth_set_position intro!: exI [of _ j])
    next
      case nold: False
      then have "grid_getchar ?m2 x y = grid_getchar ?M x y"
        using False by (auto simp: getchar_update [OF ok1] getchar_update [OF ok])
      then have "grid_isPlayer ?M x y" using p by (simp add: grid_isPlayer_def)
      then have "(x, y) \<in> set (positions g)" using L by simp
      then obtain i where i: "i < length ?ps" "row (?ps ! i) = x" "col (?ps ! i) = y"
        by (auto simp: in_positions_iff)
      have "i \<noteq> who" "i \<noteq> j" using i nold False posj by auto
      then show ?thesis using i
        by (auto simp: in_positions_iff nth_set_position intro!: exI [of _ i])
    qed
  qed
  then show ?thesis using L ok unfolding letters_occupied_iff m by simp
qed

lemma letters_occupied_pickup_bcast:
  assumes "letters_occupied g" "pickup_gold who g = Inr g'"
  shows "letters_occupied (server_update_all_clients g')"
  using assms(1) pickup_gold_fields(1,2) [OF assms(2)] pickup_positions [OF assms(2)]
  by (simp add: letters_occupied_iff)


lemma last_player_from_map_IP:
  "map IP ps' = map IP ps \<Longrightarrow> last_player_from ps' a = last_player_from ps a"
proof (induction ps arbitrary: ps')
  case Nil
  then show ?case by simp
next
  case (Cons p ps)
  then obtain p' qs where "ps' = p' # qs" "IP p' = IP p" "map IP qs = map IP ps" by (cases ps') auto
  then show ?case using Cons.IH [of qs] by simp
qed

lemma map_IP_set_position [simp]: "map IP (set_position k r c ps) = map IP ps"
  by (simp add: set_position_def map_update)

lemma IP_comp_refresh [simp]: "IP \<circ> refresh_player g = IP"
  by (rule ext) simp

lemma pickup_gold_piles:
  "pickup_gold who g = Inr g' \<Longrightarrow> GoldNumPilesLeft g' = GoldNumPilesLeft g - 1"
  by (auto simp: pickup_gold_def rand_mod_def Let_def split: if_splits list.splits sum.splits)

lemma player_move_facts:
  assumes "player_move who r c g = Inr (g', b)"
  shows "map IP (players g') = map IP (players g)"
    and "GoldNumPilesLeft g' \<le> GoldNumPilesLeft g"
proof -
  consider (same) "g' = g"
    | (swapped) j where "g' = server_update_all_clients (swap_tiles j who r c g)"
    | (gold) g1 where "pickup_gold who (enter_tile who r c g) = Inr g1"
        "g' = server_update_all_clients g1"
    | (plain) "g' = server_update_all_clients (enter_tile who r c g)"
    using assms unfolding player_move_def
    by (auto split: if_splits option.splits sum.splits)
  then have "map IP (players g') = map IP (players g) \<and> GoldNumPilesLeft g' \<le> GoldNumPilesLeft g"
  proof cases
    case gold
    then show ?thesis
      using pickup_gold_fields(11) [OF gold(1)] pickup_gold_piles [OF gold(1)] by simp
  qed simp_all
  then show "map IP (players g') = map IP (players g)"
    and "GoldNumPilesLeft g' \<le> GoldNumPilesLeft g" by simp_all
qed

lemma player_move_advances:
  assumes l: "letters_occupied g" and who: "who < length (players g)"
    and run: "player_move who r c g = Inr (g', False)"
  shows "letters_occupied g'" and "row (players g' ! who) = r" and "col (players g' ! who) = c"
proof -
  have can: "grid_canMoveTo (masterGrid g) r c" using player_move_blocked_iff [OF run] by simp
  note L = l [unfolded letters_occupied_iff]
  have found: "first_player_at (players g) r c \<noteq> None" if "grid_isPlayer (masterGrid g) r c"
  proof -
    from that L have "(r, c) \<in> set (positions g)" by simp
    then show ?thesis by (auto simp: first_player_at_None_iff positions_def)
  qed
  consider (swapped) j where "first_player_at (players g) r c = Some j"
          "g' = server_update_all_clients (swap_tiles j who r c g)"
      | (gold) g1 where "pickup_gold who (enter_tile who r c g) = Inr g1"
          "g' = server_update_all_clients g1"
      | (plain) "g' = server_update_all_clients (enter_tile who r c g)"
    using run can found unfolding player_move_def
    by (auto split: if_splits option.splits sum.splits)
  then have "letters_occupied g' \<and> row (players g' ! who) = r \<and> col (players g' ! who) = c"
  proof cases
    case swapped
    have j: "j < length (players g)" using swapped(1) by (rule first_player_at_bound)
    have "letters_occupied (swap_tiles j who r c g)" using l who swapped(1) by (rule letters_occupied_swap)
    then show ?thesis using swapped(2) who j
      by (simp add: letters_occupied_iff nth_set_position)
  next
    case gold
    have e: "letters_occupied (enter_tile who r c g)" using l who can by (rule letters_occupied_enter)
    have w: "who < length (players (enter_tile who r c g))" using who by simp
    have "letters_occupied g'" using letters_occupied_pickup_bcast [OF e gold(1)] gold(2) by simp
    moreover have "row (players g1 ! who) = r" "col (players g1 ! who) = c"
      using pickup_gold_nth(1,2) [OF gold(1) w] who by (simp_all add: nth_set_position)
    ultimately show ?thesis using gold(2) who pickup_gold_fields(7) [OF gold(1)] by simp
  next
    case plain
    have "letters_occupied (enter_tile who r c g)" using l who can by (rule letters_occupied_enter)
    then show ?thesis using plain who by (simp add: letters_occupied_iff nth_set_position)
  qed
  then show "letters_occupied g'" and "row (players g' ! who) = r" and "col (players g' ! who) = c"
    by simp_all
qed

lemma handle_step_key:
  "handleMessage from (''KEY '' @ [step_char d]) g =
     (case last_player_from (players g) from of
        None \<Rightarrow> Inr (g, False)
      | Some who \<Rightarrow>
          (case player_move who (row (players g ! who) + d_row d) (col (players g ! who) + d_col d) g of
             Inl f \<Rightarrow> Inl f
           | Inr (g1, blocked) \<Rightarrow> Inr (g1, GoldNumPilesLeft g1 = 0)))"
  by (simp add: handleMessage_def handleKEY_def split: option.splits sum.splits)

lemma handle_run_key:
  "handleMessage from (''KEY '' @ [run_char d]) g =
     (case last_player_from (players g) from of
        None \<Rightarrow> Inr (g, False)
      | Some who \<Rightarrow>
          (case run_loop who d (row (players g ! who)) (col (players g ! who)) g of
             Inl f \<Rightarrow> Inl f
           | Inr g1 \<Rightarrow> Inr (g1, GoldNumPilesLeft g1 = 0)))"
  by (simp add: handleMessage_def handleKEY_def split: option.splits sum.splits)

lemma run_loop_as_walk:
  assumes "letters_occupied g" "who < length (players g)"
    "last_player_from (players g) from = Some who"
    "row (players g ! who) = r" "col (players g ! who) = c"
  shows "step_until_blocked from d g = Some (run_loop who d r c g)"
  using assms
proof (induction who d r c g rule: run_loop.induct)
  case (1 who d r c g)
  let ?r = "r + d_row d" and ?c = "c + d_col d"
  note here = "1.prems"(3,4,5)
  have walk: "step_until_blocked from d g =
      (case player_move who ?r ?c g of
         Inl f \<Rightarrow> Some (Inl f)
       | Inr (g1, blocked) \<Rightarrow>
           if grid_canMoveTo (masterGrid g) ?r ?c then step_until_blocked from d g1
           else Some (Inr g1))"
    apply (subst step_until_blocked.simps)
    apply (simp only: handle_step_key here option.case)
    apply (simp split: sum.splits)
    done
  show ?case
  proof (cases "player_move who ?r ?c g")
    case (Inl f)
    then have "run_loop who d r c g = Inl f" by (subst run_loop.simps) simp
    moreover have "step_until_blocked from d g = Some (Inl f)"
      by (simp add: walk Inl)
    ultimately show ?thesis by simp
  next
    case (Inr res)
    obtain g1 b where res: "res = (g1, b)" by (cases res)
    have pm: "player_move who ?r ?c g = Inr (g1, b)" using Inr res by simp
    have b: "b = (\<not> grid_canMoveTo (masterGrid g) ?r ?c)" using pm by (rule player_move_blocked_iff)
    show ?thesis
    proof (cases b)
      case True
      have "run_loop who d r c g = Inr g1" using pm True by (subst run_loop.simps) simp
      moreover have "step_until_blocked from d g = Some (Inr g1)"
        using b True by (simp add: walk pm)
      ultimately show ?thesis by simp
    next
      case False
      have pm': "player_move who ?r ?c g = Inr (g1, False)" using pm False by simp
      note adv = player_move_advances [OF "1.prems"(1,2) pm']
      have len: "who < length (players g1)" using player_move_length [OF pm] "1.prems"(2) by simp
      have seated: "last_player_from (players g1) from = Some who"
        using last_player_from_map_IP [OF player_move_facts(1) [OF pm]] "1.prems"(3) by simp
      have "step_until_blocked from d g = step_until_blocked from d g1"
        using b False by (simp add: walk pm)
      also have "\<dots> = Some (run_loop who d ?r ?c g1)"
        by (rule "1.IH" [OF pm refl False adv(1) len seated adv(2) adv(3)])
      also have "run_loop who d ?r ?c g1 = run_loop who d r c g"
        using pm False by (subst (2) run_loop.simps) simp
      finally show ?thesis .
    qed
  qed
qed



lemma letters_occupied_join:
  assumes l: "letters_occupied g"
  shows "letters_occupied (seat_player a name r c sg (g\<lparr>rands := rs\<rparr>))"
proof -
  let ?g = "seat_player a name r c sg (g\<lparr>rands := rs\<rparr>)"
  note L = l [unfolded letters_occupied_iff]
  have ok: "grid_ok (masterGrid g)" using L by simp
  have pos: "set (positions ?g) = insert (r, c) (set (positions g))"
    by (simp add: seat_player_def Let_def positions_def)
  have "(x, y) \<in> set (positions ?g)" if p: "grid_isPlayer (masterGrid ?g) x y" for x y
  proof (cases "x = r \<and> y = c")
    case True
    then show ?thesis using pos by simp
  next
    case False
    then have "grid_getchar (masterGrid ?g) x y = grid_getchar (masterGrid g) x y"
      by (auto simp: seat_player_def Let_def getchar_update [OF ok])
    then have "grid_isPlayer (masterGrid g) x y" using p by (simp add: grid_isPlayer_def)
    then show ?thesis using L pos by simp
  qed
  moreover have "grid_ok (masterGrid ?g)" "rawGrid ?g = rawGrid g"
    using ok by (simp_all add: seat_player_def Let_def)
  ultimately show ?thesis using L unfolding letters_occupied_iff by simp
qed

lemma letters_occupied_quit:
  assumes l: "letters_occupied g"
  shows "letters_occupied (quit_step ip p g)"
proof (cases "message_eqAddr ip (IP p)")
  case False
  then show ?thesis using l by (simp add: quit_step_def)
next
  case True
  let ?g = "quit_step ip p g"
  note L = l [unfolded letters_occupied_iff]
  have ok: "grid_ok (masterGrid g)" using L by simp
  have m: "masterGrid ?g = grid_update (masterGrid g) (row p) (col p)
                             (grid_getchar (rawGrid g) (row p) (col p))"
    and f: "rawGrid ?g = rawGrid g" "positions ?g = positions g"
    using True by (simp_all add: quit_step_def positions_def)
  have "(x, y) \<in> set (positions g)" if q: "grid_isPlayer (masterGrid ?g) x y" for x y
  proof (cases "x = row p \<and> y = col p \<and> in_grid (masterGrid g) (row p) (col p)")
    case True
    then have "grid_getchar (masterGrid ?g) x y = grid_getchar (rawGrid g) (row p) (col p)"
      by (simp add: m getchar_update [OF ok])
    then have "grid_isPlayer (rawGrid g) (row p) (col p)" using q by (simp add: grid_isPlayer_def)
    then show ?thesis using L by simp
  next
    case False
    then have "grid_getchar (masterGrid ?g) x y = grid_getchar (masterGrid g) x y"
      by (auto simp: m getchar_update [OF ok])
    then have "grid_isPlayer (masterGrid g) x y" using q by (simp add: grid_isPlayer_def)
    then show ?thesis using L by simp
  qed
  then show ?thesis using L ok unfolding letters_occupied_iff m f by simp
qed

lemma handleMessage_letters_occupied:
  assumes "letters_occupied g" "handleMessage from msg g = Inr (g', b)"
  shows "letters_occupied g'"
proof (rule handleMessage_keeps [where I = letters_occupied and quits = True and g = g
                                  and msg = msg and g' = g' and b = b and ?from = "from"])
  show "letters_occupied g" by fact
  show "handleMessage from msg g = Inr (g', b)" by fact
  show "letters_occupied (server_update_all_clients g')"
    if "letters_occupied g" "pickup_gold who g = Inr g'" for who g g'
    using that by (rule letters_occupied_pickup_bcast)
  show "letters_occupied (seat_player a name r c sg (g\<lparr>rands := rs\<rparr>))"
    if "letters_occupied g" for a name r c rs sg g
    using that by (rule letters_occupied_join)
  show "letters_occupied (quit_step ip p g)" if "letters_occupied g" for ip p g
    using that by (rule letters_occupied_quit)
  show "letters_occupied (enter_tile who r c g)"
    if "letters_occupied g" "who < length (players g)" "grid_canMoveTo (masterGrid g) r c"
    for who r c g
    using that by (rule letters_occupied_enter)
  show "letters_occupied (swap_tiles j who r c g)"
    if "letters_occupied g" "who < length (players g)" "first_player_at (players g) r c = Some j"
    for j who r c g
    using that by (rule letters_occupied_swap)
qed (simp_all add: letters_occupied_iff positions_def)

lemma message_loop_letters_occupied:
  "letters_occupied g \<Longrightarrow> message_loop msgs g = Inr g' \<Longrightarrow> letters_occupied g'"
  by (rule message_loop_keeps [where I = letters_occupied and quits = True and msgs = msgs and g = g])
     (auto intro: handleMessage_letters_occupied)

lemma well_formed_map_no_player:
  assumes "well_formed_map m"
  shows "\<not> grid_isPlayer m r c"
proof (cases "in_grid m r c")
  case False
  then show ?thesis by (auto simp: grid_isPlayer_def grid_getchar_def in_grid_def isalpha_def)
next
  case True
  have "nat (r * ncol m + c) < length (map_chars m)"
    using cell_index_bound [of r "nrow m" c "ncol m"] True assms
    by (simp add: in_grid_def well_formed_map_def grid_ok_def nat_less_iff)
  then have "map_chars m ! nat (r * ncol m + c) \<in> set (map_chars m)" by simp
  then have "grid_getchar m r c \<in> set map_alphabet"
    using True assms by (auto simp: grid_getchar_def in_grid_def well_formed_map_def list_all_iff)
  then show ?thesis by (auto simp: map_alphabet_def grid_isPlayer_def isalpha_def)
qed

lemma drop_piles_no_player:
  assumes "drop_piles n g = Inr g'" "grid_ok (masterGrid g)"
    "\<And>r c. \<not> grid_isPlayer (masterGrid g) r c"
  shows "\<not> grid_isPlayer (masterGrid g') r c"
  using assms
proof (induction n arbitrary: g)
  case 0
  then show ?case by simp
next
  case (Suc n)
  from Suc.prems(1) obtain r1 c1 rs where
    d: "drop_piles n (g\<lparr>rands := rs, masterGrid := grid_update (masterGrid g) r1 c1 CHR ''*''\<rparr>) = Inr g'"
    by (auto split: sum.splits)
  show ?case
  proof (rule Suc.IH [OF d])
    show "grid_ok (masterGrid (g\<lparr>rands := rs, masterGrid := grid_update (masterGrid g) r1 c1 CHR ''*''\<rparr>))"
      using Suc.prems(2) by simp
    show "\<not> grid_isPlayer (masterGrid (g\<lparr>rands := rs,
              masterGrid := grid_update (masterGrid g) r1 c1 CHR ''*''\<rparr>)) r c" for r c
      using Suc.prems(3) [of r c]
      by (auto simp: grid_isPlayer_def getchar_update [OF Suc.prems(2)] isalpha_def)
  qed
qed

lemma server_start_letters_occupied:
  assumes "server_start load pid libc_rand argv = Ready g0" "well_formed_map (rawGrid g0)"
  shows "letters_occupied g0"
proof -
  from assms(1) obtain g s g1 x where p: "parseArgs load pid argv GAME_at_start = Inr (g, s)"
    and d: "drop_piles (nat (x + GoldMinNumPiles))
              (g1\<lparr>GoldNumPilesLeft := x + GoldMinNumPiles, goldCollected := 0, goldLeft := GoldTotal\<rparr>) = Inr g0"
    and r: "rand_mod (GoldMaxNumPiles - GoldMinNumPiles) (g\<lparr>rands := libc_rand s\<rparr>) = Inr (x, g1)"
    by (auto simp: server_start_def server_drop_gold_def split: sum.splits)
  from r have g1: "rawGrid g1 = rawGrid g" "masterGrid g1 = masterGrid g"
    by (auto simp: rand_mod_def split: list.splits if_splits)
  from p have g: "masterGrid g = rawGrid g"
    by (auto simp: parseArgs_def GAME_at_start_def Let_def split: if_splits option.splits)
  have raw: "rawGrid g0 = rawGrid g" using drop_piles_fields [OF d] g1 by simp
  have wf: "well_formed_map (rawGrid g)" using assms(2) raw by simp
  have ok: "grid_ok (masterGrid g0)" using drop_piles_fields [OF d] g1 g wf
    by (simp add: well_formed_map_def)
  have "\<not> grid_isPlayer (masterGrid g0) r c" for r c
  proof (rule drop_piles_no_player [OF d])
    show "grid_ok (masterGrid (g1\<lparr>GoldNumPilesLeft := x + GoldMinNumPiles, goldCollected := 0,
             goldLeft := GoldTotal\<rparr>))"
      using g1 g wf by (simp add: well_formed_map_def)
    show "\<not> grid_isPlayer (masterGrid (g1\<lparr>GoldNumPilesLeft := x + GoldMinNumPiles,
             goldCollected := 0, goldLeft := GoldTotal\<rparr>)) r c" for r c
      using g1 g well_formed_map_no_player [OF wf] by simp
  qed
  then show ?thesis
    using ok well_formed_map_no_player [OF assms(2)] by (simp add: letters_occupied_iff)
qed


subsection \<open>Running the example games\<close>

text \<open>The definitions that a run of the handlers on an explicit game unfolds. The
  broadcast stays folded: what a run needs of it are the fields it leaves unchanged.\<close>

lemma first_letters:
  "char_of (65 :: int) = CHR ''A''" "char_of (66 :: int) = CHR ''B''"
  by (simp_all add: char_of_eq_iff)

lemmas eval_defs = first_letters handleMessage_def handlePlay_def handleKEY_def numPlayer_def MaxPlayers_def
      helper_nameIsEmpty_def isspace_def server_drop_player_def c_rem_def grid_isEmptyRoomSpot_def
      grid_getchar_def grid_update_def grid_new_def seat_player_def Let_def message_eqAddr_def addrA_def addrB_def
      step_key_def run_key_def player_move_def grid_canMoveTo_def grid_isBoundary_def grid_isRock_def grid_isPlayer_def
      grid_isGold_def isalpha_def enter_tile_def swap_tiles_def set_position_def pickup_gold_def rand_mod_def row12_def
      handleQUIT_def quit_step_def handleSPECTATE_def message_isAddr_def message_noAddr_def AF_INET_def

lemmas run_defs = eval_defs run_loop.simps

lemma start_row12:
  "server_start (\<lambda>f. Some row12) 4711 (\<lambda>s. draws) [''server'', ''map.txt''] = Ready started"
  by (simp add: server_start_def parseArgs_def GAME_at_start_def server_drop_gold_def rand_mod_def
        draws_def c_rem_def GoldMaxNumPiles_def GoldMinNumPiles_def GoldTotal_def grid_nrow_def
        grid_ncol_def row12_def numeral_eq_Suc grid_isEmptyRoomSpot_def grid_getchar_def
        grid_update_def started_def message_noAddr_def)

lemma run_join_pickup_spectate:
  "\<exists>g. message_loop [(addrA, ''PLAY ann''), (addrA, ''KEY h''), (addrB, ''SPECTATE'')] started = Inr g
       \<and> positions g = [(0, 9)] \<and> map gold (players g) = [1] \<and> goldLeft g = 249"
  by (simp add: eval_defs started_def positions_def)

subsection \<open>Invariants of reachable games\<close>

text \<open>
  Claim C2. Gold conservation: in every game that the server reaches after its setup
  (\<^verbatim>\<open>parseArgs\<close>, \<^verbatim>\<open>server_drop_gold\<close>) by handling messages, the purses of all players
  of the table plus \<^verbatim>\<open>goldLeft\<close> are 250, and \<^verbatim>\<open>goldCollected + goldLeft\<close> is 250.
  Every handler keeps this (\<open>handleMessage_conserved\<close>).
\<close>

theorem gold_conserved:
  assumes "server_start load pid libc_rand argv = Ready g0" and "message_loop msgs g0 = Inr g"
  shows "sum_list (map gold (players g)) + goldLeft g = 250 \<and> goldCollected g + goldLeft g = 250"
proof -
  have "conserved g0" using server_start_fields(1-3) [OF assms(1)]
    by (simp add: conserved_def purses_def)
  then have "conserved g" using assms(2) by (rule message_loop_conserved)
  then show ?thesis by (simp add: conserved_def purses_def GoldTotal_def)
qed

theorem gold_conserved_witness:
  "server_start (\<lambda>f. Some row12) 4711 (\<lambda>s. draws) [''server'', ''map.txt''] = Ready started
   \<and> (case message_loop [(addrA, ''PLAY ann''), (addrA, ''KEY h''), (addrB, ''SPECTATE'')] started of
        Inr g \<Rightarrow> map gold (players g) = [1] \<and> goldLeft g = 249
                 \<and> sum_list (map gold (players g)) + goldLeft g = 250
                 \<and> goldCollected g + goldLeft g = 250
      | Inl f \<Rightarrow> False)"
proof -
  obtain g where r: "message_loop [(addrA, ''PLAY ann''), (addrA, ''KEY h''), (addrB, ''SPECTATE'')]
                       started = Inr g"
    and v: "map gold (players g) = [1]" "goldLeft g = 249"
    using run_join_pickup_spectate by auto
  from gold_conserved [OF start_row12 r] show ?thesis using start_row12 r v by simp
qed

text \<open>
  Claim C10. The position of a player of the table always stays inside the grid: in
  every game that the server reaches by handling messages (\<^verbatim>\<open>KEY\<close> messages among
  them), each player has \<open>0 \<le> row < nrow\<close> and \<open>0 \<le> col < ncol\<close> of the master grid.
  Every handler keeps this (\<open>handleMessage_all_in_grid\<close>): \<^verbatim>\<open>grid_canMoveTo\<close> is false
  on the character that \<^verbatim>\<open>grid_getchar\<close> returns outside the grid.
\<close>

theorem positions_stay_in_grid:
  assumes "server_start load pid libc_rand argv = Ready g0" and "message_loop msgs g0 = Inr g"
    and "p \<in> set (players g)"
  shows "0 \<le> row p \<and> row p < nrow (masterGrid g) \<and> 0 \<le> col p \<and> col p < ncol (masterGrid g)"
proof -
  have "all_in_grid g0" using server_start_fields(1) [OF assms(1)] by (simp add: all_in_grid_def)
  then have "all_in_grid g" using assms(2) by (rule message_loop_all_in_grid)
  then show ?thesis using assms(3) by (simp add: all_in_grid_def list_all_iff in_grid_def)
qed

theorem positions_stay_in_grid_witness:
  "server_start (\<lambda>f. Some row12) 4711 (\<lambda>s. draws) [''server'', ''map.txt''] = Ready started
   \<and> (case message_loop [(addrA, ''PLAY ann''), (addrA, ''KEY h''), (addrB, ''SPECTATE'')] started of
        Inr g \<Rightarrow> positions g = [(0, 9)]
                 \<and> list_all (\<lambda>p. 0 \<le> row p \<and> row p < nrow (masterGrid g)
                                 \<and> 0 \<le> col p \<and> col p < ncol (masterGrid g)) (players g)
      | Inl f \<Rightarrow> False)"
proof -
  obtain g where r: "message_loop [(addrA, ''PLAY ann''), (addrA, ''KEY h''), (addrB, ''SPECTATE'')]
                       started = Inr g"
    and v: "positions g = [(0, 9)]"
    using run_join_pickup_spectate by auto
  from positions_stay_in_grid [OF start_row12 r]
  have "list_all (\<lambda>p. 0 \<le> row p \<and> row p < nrow (masterGrid g)
                      \<and> 0 \<le> col p \<and> col p < ncol (masterGrid g)) (players g)"
    by (simp add: list_all_iff)
  then show ?thesis using start_row12 r v by simp
qed

lemma run_join_join_swap:
  "\<exists>g. message_loop [(addrA, ''PLAY ann''), (addrB, ''PLAY bob''), (addrB, ''KEY h'')] started = Inr g
       \<and> positions g = [(0, 11), (0, 10)]"
  by (simp add: eval_defs started_def positions_def)

text \<open>
  Claim C4, amended. As long as no player has quit (no \<^verbatim>\<open>KEY Q\<close> message was handled),
  after the server has handled any message no two players of the table have the same
  position. (The map file is loaded into a well-formed grid.)
\<close>

theorem no_shared_tile_without_quit:
  assumes start: "server_start load pid libc_rand argv = Ready g0"
    and map_ok: "\<forall>m. load (argv ! 1) = Some m \<longrightarrow> grid_ok m"
    and run: "message_loop msgs g0 = Inr g"
    and no_quit: "\<forall>m\<in>set msgs. take 5 (snd m) \<noteq> ''KEY Q''"
  shows "distinct (map (\<lambda>p. (row p, col p)) (players g))"
proof -
  have "lettered g0" using server_start_fields(1,4) [OF start] map_ok by (auto simp: lettered_def)
  then have "lettered g" using no_quit run by (rule message_loop_lettered)
  then show ?thesis using lettered_distinct_positions by (simp add: positions_def)
qed

theorem no_shared_tile_without_quit_witness:
  "server_start (\<lambda>f. Some row12) 4711 (\<lambda>s. draws) [''server'', ''map.txt''] = Ready started
   \<and> grid_ok row12
   \<and> (case message_loop [(addrA, ''PLAY ann''), (addrB, ''PLAY bob''), (addrB, ''KEY h'')] started of
        Inr g \<Rightarrow> positions g = [(0, 11), (0, 10)]
                 \<and> distinct (map (\<lambda>p. (row p, col p)) (players g))
      | Inl f \<Rightarrow> False)"
proof -
  have ok: "\<forall>m. (\<lambda>f. Some row12) ([''server'', ''map.txt''] ! 1) = Some m \<longrightarrow> grid_ok m"
    by (simp add: grid_ok_def row12_def)
  have nq: "\<forall>m\<in>set [(addrA, ''PLAY ann''), (addrB, ''PLAY bob''), (addrB, ''KEY h'')].
              take 5 (snd m) \<noteq> ''KEY Q''"
    by simp
  obtain g where r: "message_loop [(addrA, ''PLAY ann''), (addrB, ''PLAY bob''), (addrB, ''KEY h'')]
                       started = Inr g"
    and v: "positions g = [(0, 11), (0, 10)]"
    using run_join_join_swap by auto
  have gk: "grid_ok row12" by (simp add: grid_ok_def row12_def)
  from no_shared_tile_without_quit [OF start_row12 ok r nq] show ?thesis
    using start_row12 r v gk by simp
qed

text \<open>
  Claim C4 as stated fails after a quit: \<^verbatim>\<open>handleQUIT\<close> clears the tile of the player
  but keeps the player, with the position, in the table. Two players join on the columns
  10 and 11, the first quits, the second steps left: both entries of the table are then
  at row 0, column 10.
\<close>

theorem shared_tile_after_quit_counterexample:
  "server_start (\<lambda>f. Some row12) 4711 (\<lambda>s. draws) [''server'', ''map.txt''] = Ready started
   \<and> map_sum id positions
        (message_loop [(addrA, ''PLAY ann''), (addrB, ''PLAY bob''), (addrA, ''KEY Q''),
                       (addrB, ''KEY h'')] started)
       = Inr [(0, 10), (0, 10)]"
  using start_row12 by (simp add: eval_defs started_def positions_def)

subsection \<open>Gold on the target tile\<close>

text \<open>Every handler keeps the books in the state that \<^verbatim>\<open>pickup_gold\<close> needs, and the
  server starts with them in that state: between 10 and 29 piles for 250 nuggets.\<close>

lemma pickup_ledger:
  assumes "ledger g" "pickup_gold who g = Inr g'"
  shows "GoldNumPilesLeft g' \<le> goldLeft g'"
proof (cases "GoldNumPilesLeft g = 1")
  case True
  then show ?thesis using assms(2) by (auto simp: pickup_gold_def)
next
  case False
  let ?n = "goldLeft g - GoldNumPilesLeft g + 1"
  have n: "0 < ?n" using assms(1) by (simp add: ledger_def)
  from assms(2) False obtain x rs where x: "rands g = x # rs"
    by (cases "rands g") (auto simp: pickup_gold_def rand_mod_def Let_def)
  have hi: "int x mod ?n < ?n" using n by (rule pos_mod_bound)
  have "goldLeft g' = goldLeft g - (int x mod ?n + 1)" "GoldNumPilesLeft g' = GoldNumPilesLeft g - 1"
    using assms(2) False x n by (auto simp: pickup_gold_def rand_mod_def c_rem_nonneg)
  then show ?thesis using hi by linarith
qed

lemma justCollected_set_position [simp]:
  "n < length ps \<Longrightarrow> justCollected (set_position k r c ps ! n) = justCollected (ps ! n)"
  by (cases "n = k") (simp_all add: set_position_def)

lemma handleMessage_ledger:
  assumes "ledger g" "handleMessage from msg g = Inr (g', b)"
  shows "ledger g'"
proof (rule handleMessage_keeps [where I = ledger and quits = True and g = g and msg = msg
                                  and g' = g' and b = b and ?from = "from"])
  show "ledger g" by fact
  show "handleMessage from msg g = Inr (g', b)" by fact
  show "ledger (server_update_all_clients g')"
    if "ledger g" "pickup_gold who g = Inr g'" for who g g'
    using pickup_ledger [OF that] by (simp add: ledger_def list_all_iff)
  show "ledger (enter_tile who r c g)" if "ledger g" for who r c g
    using that by (simp add: ledger_def list_all_length)
  show "ledger (swap_tiles j who r c g)" if "ledger g" for j who r c g
    using that by (simp add: ledger_def list_all_length)
  show "ledger (quit_step ip p g)" if "ledger g" for ip p g
    using that by (simp add: ledger_def quit_step_def)
qed (simp_all add: ledger_def list_all_iff seat_player_def Let_def)

lemma message_loop_ledger:
  "ledger g \<Longrightarrow> message_loop msgs g = Inr g' \<Longrightarrow> ledger g'"
  by (rule message_loop_keeps [where I = ledger and quits = True and msgs = msgs and g = g])
     (auto intro: handleMessage_ledger)

lemma drop_piles_piles:
  "drop_piles n g = Inr g' \<Longrightarrow> GoldNumPilesLeft g' = GoldNumPilesLeft g"
proof (induction n arbitrary: g)
  case 0
  then show ?case by simp
next
  case (Suc n)
  from Suc.prems obtain r c rs where
    "drop_piles n (g\<lparr>rands := rs, masterGrid := grid_update (masterGrid g) r c CHR ''*''\<rparr>) = Inr g'"
    by (auto split: sum.splits)
  from Suc.IH [OF this] show ?case by simp
qed

lemma server_start_ledger:
  assumes "server_start load pid libc_rand argv = Ready g0"
  shows "ledger g0"
proof -
  from assms obtain g s g1 x where
    d: "drop_piles (nat (x + GoldMinNumPiles))
              (g1\<lparr>GoldNumPilesLeft := x + GoldMinNumPiles, goldCollected := 0, goldLeft := GoldTotal\<rparr>) = Inr g0"
    and r: "rand_mod (GoldMaxNumPiles - GoldMinNumPiles) (g\<lparr>rands := libc_rand s\<rparr>) = Inr (x, g1)"
    by (auto simp: server_start_def server_drop_gold_def split: sum.splits)
  from r obtain y where "x = int y mod 20"
    by (auto simp: rand_mod_def GoldMaxNumPiles_def GoldMinNumPiles_def c_rem_nonneg
             split: list.splits if_splits)
  then have "x < 20" by simp
  then have "GoldNumPilesLeft g0 \<le> goldLeft g0"
    using drop_piles_piles [OF d] drop_piles_fields [OF d]
    by (simp add: GoldMinNumPiles_def GoldTotal_def)
  then show ?thesis using server_start_fields(1) [OF assms] by (simp add: ledger_def)
qed



lemma gold_tile_entered:
  "grid_isGold m r c \<Longrightarrow> grid_canMoveTo m r c \<and> \<not> grid_isPlayer m r c"
  by (simp add: grid_isGold_def grid_canMoveTo_def grid_isBoundary_def grid_isRock_def
        grid_isPlayer_def isalpha_def)

lemma gold_message_sent:
  assumes "who < length (players g)"
  shows "(IP (players g ! who),
          gold_message (justCollected (players g ! who)) (gold (players g ! who)) (goldLeft g))
         \<in> set (sent (server_update_all_clients g))"
proof -
  have "players g ! who \<in> set (players g)" using assms by simp
  then show ?thesis
    by (auto simp: server_update_all_clients_def Let_def client_messages_def)
qed


text \<open>
  Claim C1. Pickup accounting. In every game that the server reaches from its start by
  handling messages, when \<^verbatim>\<open>player_move\<close> is called for a player of the table and the
  target tile of the master grid shows gold, let \<open>L = goldLeft\<close> and
  \<open>P = GoldNumPilesLeft\<close> before, and \<open>x\<close> the next value of \<^verbatim>\<open>rand()\<close>. The call takes
  the gold branch: it returns false, and there is an amount such that: if \<open>P = 1\<close> the
  amount is \<open>L\<close>, otherwise it is \<open>x mod (L - P + 1) + 1\<close> and lies between 1 and
  \<open>L - P + 1\<close>. After \<^verbatim>\<open>pickup_gold\<close> (the game \<open>g1\<close>) the mover stands on the target,
  the purse and \<^verbatim>\<open>justCollected\<close> of the mover are larger by the amount, \<^verbatim>\<open>goldCollected\<close>
  is larger by it, \<^verbatim>\<open>goldLeft\<close> is smaller by it, and \<^verbatim>\<open>GoldNumPilesLeft\<close> is smaller
  by 1. The broadcast that ends the move reports the amount to the mover in the
  \<^verbatim>\<open>GOLD\<close> message and leaves purse and counters as they are.
\<close>

theorem pickup_accounting:
  assumes start: "server_start load pid libc_rand argv = Ready g0"
    and reach: "message_loop msgs g0 = Inr g"
    and who: "who < length (players g)"
    and tile: "grid_isGold (masterGrid g) r c"
    and draw: "rands g = x # rs"
  shows "\<exists>amount g1.
           (if GoldNumPilesLeft g = 1 then amount = goldLeft g
            else 1 \<le> amount \<and> amount \<le> goldLeft g - GoldNumPilesLeft g + 1
                 \<and> amount = int x mod (goldLeft g - GoldNumPilesLeft g + 1) + 1)
           \<and> pickup_gold who (enter_tile who r c g) = Inr g1
           \<and> player_move who r c g = Inr (server_update_all_clients g1, False)
           \<and> row (players g1 ! who) = r \<and> col (players g1 ! who) = c
           \<and> gold (players g1 ! who) = gold (players g ! who) + amount
           \<and> justCollected (players g1 ! who) = justCollected (players g ! who) + amount
           \<and> goldCollected g1 = goldCollected g + amount
           \<and> goldLeft g1 = goldLeft g - amount
           \<and> GoldNumPilesLeft g1 = GoldNumPilesLeft g - 1
           \<and> (IP (players g ! who),
               gold_message amount (gold (players g ! who) + amount) (goldLeft g - amount))
              \<in> set (sent (server_update_all_clients g1))
           \<and> gold (players (server_update_all_clients g1) ! who) = gold (players g ! who) + amount
           \<and> goldCollected (server_update_all_clients g1) = goldCollected g + amount
           \<and> goldLeft (server_update_all_clients g1) = goldLeft g - amount
           \<and> GoldNumPilesLeft (server_update_all_clients g1) = GoldNumPilesLeft g - 1"
proof -
  let ?e = "enter_tile who r c g"
  have "ledger g0" using start by (rule server_start_ledger)
  then have l: "ledger g" using reach by (rule message_loop_ledger)
  then have fresh: "justCollected (players g ! who) = 0" and inv: "GoldNumPilesLeft g \<le> goldLeft g"
    using who by (simp_all add: ledger_def list_all_length)
  have who': "who < length (players ?e)" using who by simp
  have inv': "GoldNumPilesLeft ?e \<le> goldLeft ?e" using inv by simp
  have draw': "rands ?e = x # rs" using draw by simp
  from pickup_gold_amount [OF who' inv' draw'] obtain amount where
    a': "if GoldNumPilesLeft ?e = 1 then amount = goldLeft ?e
        else 1 \<le> amount \<and> amount \<le> goldLeft ?e - GoldNumPilesLeft ?e + 1
             \<and> amount = int x mod (goldLeft ?e - GoldNumPilesLeft ?e + 1) + 1"
    and p: "pickup_gold who ?e =
       Inr (?e\<lparr>rands := (if GoldNumPilesLeft ?e = 1 then rands ?e else rs),
               players := (players ?e)[who := (players ?e ! who)
                          \<lparr>gold := gold (players ?e ! who) + amount, justCollected := amount\<rparr>],
               goldCollected := goldCollected ?e + amount, goldLeft := goldLeft ?e - amount,
               GoldNumPilesLeft := GoldNumPilesLeft ?e - 1\<rparr>)" (is "_ = Inr ?g1")
    by blast
  have a: "if GoldNumPilesLeft g = 1 then amount = goldLeft g
        else 1 \<le> amount \<and> amount \<le> goldLeft g - GoldNumPilesLeft g + 1
             \<and> amount = int x mod (goldLeft g - GoldNumPilesLeft g + 1) + 1"
    using a' by (simp only: enter_tile_fields)
  have who1: "who < length (players ?g1)" using who by simp
  have mover: "players ?g1 ! who
               = (players g ! who)\<lparr>row := r, col := c, gold := gold (players g ! who) + amount,
                                    justCollected := amount\<rparr>"
    using who by (simp add: nth_set_position)
  have move: "player_move who r c g = Inr (server_update_all_clients ?g1, False)"
    using gold_tile_entered [OF tile] tile p by (simp add: player_move_def)
  have msg: "(IP (players g ! who),
               gold_message amount (gold (players g ! who) + amount) (goldLeft g - amount))
              \<in> set (sent (server_update_all_clients ?g1))"
    using gold_message_sent [OF who1] by (simp only: mover) simp
  have final: "gold (players (server_update_all_clients ?g1) ! who) = gold (players g ! who) + amount"
    using who1 by (simp only: update_all_fields nth_map refresh_fields mover) simp
  show ?thesis
    apply (rule exI [of _ amount])
    apply (rule exI [of _ ?g1])
    apply (intro conjI)
    using a p move msg final fresh who by (simp_all add: nth_set_position)
qed


lemma run_join:
  "\<exists>g. message_loop [(addrA, ''PLAY ann'')] started = Inr g
       \<and> length (players g) = 1 \<and> grid_isGold (masterGrid g) 0 9 \<and> rands g = [0, 11, 7, 3]
       \<and> goldLeft g = 250 \<and> GoldNumPilesLeft g = 10 \<and> goldCollected g = 0
       \<and> map gold (players g) = [0] \<and> map justCollected (players g) = [0]
       \<and> map IP (players g) = [addrA] \<and> positions g = [(0, 10)]"
  by (simp add: eval_defs started_def positions_def)



theorem pickup_accounting_witness:
  "server_start (\<lambda>f. Some row12) 4711 (\<lambda>s. draws) [''server'', ''map.txt''] = Ready started
   \<and> (case message_loop [(addrA, ''PLAY ann'')] started of
        Inl f \<Rightarrow> False
      | Inr g \<Rightarrow>
          0 < length (players g) \<and> grid_isGold (masterGrid g) 0 9 \<and> rands g = 0 # [11, 7, 3]
          \<and> goldLeft g = 250 \<and> GoldNumPilesLeft g = 10
          \<and> (\<exists>g1. pickup_gold 0 (enter_tile 0 0 9 g) = Inr g1
                \<and> player_move 0 0 9 g = Inr (server_update_all_clients g1, False)
                \<and> gold (players g1 ! 0) = 1 \<and> justCollected (players g1 ! 0) = 1
                \<and> goldCollected g1 = 1 \<and> goldLeft g1 = 249 \<and> GoldNumPilesLeft g1 = 9
                \<and> (addrA, gold_message 1 1 249) \<in> set (sent (server_update_all_clients g1))))"
proof -
  obtain g where r: "message_loop [(addrA, ''PLAY ann'')] started = Inr g"
    and n: "length (players g) = 1" and t: "grid_isGold (masterGrid g) 0 9"
    and d: "rands g = 0 # [11, 7, 3]"
    and v: "goldLeft g = 250" "GoldNumPilesLeft g = 10" "goldCollected g = 0"
    and m: "map gold (players g) = [0]" "map justCollected (players g) = [0]"
      "map IP (players g) = [addrA]"
    using run_join by auto
  have w: "0 < length (players g)" using n by simp
  have p: "gold (players g ! 0) = 0" "justCollected (players g ! 0) = 0" "IP (players g ! 0) = addrA"
    using m w nth_map [OF w, of gold] nth_map [OF w, of justCollected] nth_map [OF w, of IP]
    by simp_all
  from pickup_accounting [OF start_row12 r w t d] obtain amount g1 where
    a: "if GoldNumPilesLeft g = 1 then amount = goldLeft g
        else 1 \<le> amount \<and> amount \<le> goldLeft g - GoldNumPilesLeft g + 1
             \<and> amount = int 0 mod (goldLeft g - GoldNumPilesLeft g + 1) + 1"
    and f: "pickup_gold 0 (enter_tile 0 0 9 g) = Inr g1"
      "player_move 0 0 9 g = Inr (server_update_all_clients g1, False)"
      "gold (players g1 ! 0) = gold (players g ! 0) + amount"
      "justCollected (players g1 ! 0) = justCollected (players g ! 0) + amount"
      "goldCollected g1 = goldCollected g + amount"
      "goldLeft g1 = goldLeft g - amount"
      "GoldNumPilesLeft g1 = GoldNumPilesLeft g - 1"
      "(IP (players g ! 0), gold_message amount (gold (players g ! 0) + amount) (goldLeft g - amount))
         \<in> set (sent (server_update_all_clients g1))"
    by blast
  have "amount = 1" using a v by simp
  then have "\<exists>g1. pickup_gold 0 (enter_tile 0 0 9 g) = Inr g1
                \<and> player_move 0 0 9 g = Inr (server_update_all_clients g1, False)
                \<and> gold (players g1 ! 0) = 1 \<and> justCollected (players g1 ! 0) = 1
                \<and> goldCollected g1 = 1 \<and> goldLeft g1 = 249 \<and> GoldNumPilesLeft g1 = 9
                \<and> (addrA, gold_message 1 1 249) \<in> set (sent (server_update_all_clients g1))"
    using f p v by (intro exI [of _ g1]) simp
  then show ?thesis
    by (simp only: start_row12 r sum.case w t d v simp_thms)
qed

subsection \<open>Run keys\<close>

text \<open>
  Claim C6. Run-mode equivalence. In every game that the server reaches by handling
  messages after it started on a map of the map alphabet, for every seated player and
  every direction: handling the single-step key again and again until a step targets a
  tile that is not traversable ends, and it ends with the outcome of handling the run key
  once: the same game (the same position of the mover and of every other player, the
  same purses, grids, remaining draws and messages sent, so the same pickups and swaps
  in the same order), or the same fault where \<^verbatim>\<open>rand()\<close> has no value left.
\<close>

theorem run_key_as_steps:
  assumes start: "server_start load pid libc_rand argv = Ready g0"
    and wf: "well_formed_map (rawGrid g0)"
    and reach: "message_loop msgs g0 = Inr g"
    and seated: "last_player_from (players g) from = Some who"
  shows "step_until_blocked from d g
         = Some (map_sum id fst (handleMessage from (''KEY '' @ [run_char d]) g))"
proof -
  have "letters_occupied g0" using start wf by (rule server_start_letters_occupied)
  then have l: "letters_occupied g" using reach by (rule message_loop_letters_occupied)
  have who: "who < length (players g)" using seated by (rule last_player_from_bound)
  have "step_until_blocked from d g
        = Some (run_loop who d (row (players g ! who)) (col (players g ! who)) g)"
    using l who seated refl refl by (rule run_loop_as_walk)
  moreover have "map_sum id fst (handleMessage from (''KEY '' @ [run_char d]) g)
        = run_loop who d (row (players g ! who)) (col (players g ! who)) g"
    by (simp only: handle_run_key seated option.case) (simp split: sum.splits)
  ultimately show ?thesis by (simp only:)
qed


lemma run_join_join_run:
  "\<exists>g. message_loop [(addrA, ''PLAY ann''), (addrB, ''PLAY bob'')] started = Inr g
       \<and> last_player_from (players g) addrA = Some 0 \<and> positions g = [(0, 10), (0, 11)]
       \<and> map_sum id (positions \<circ> fst) (handleMessage addrA (''KEY '' @ [run_char East]) g)
           = Inr [(0, 11), (0, 10)]"
  by (simp add: run_defs started_def positions_def)


theorem run_key_as_steps_witness:
  "server_start (\<lambda>f. Some row12) 4711 (\<lambda>s. draws) [''server'', ''map.txt''] = Ready started
   \<and> well_formed_map (rawGrid started)
   \<and> (case message_loop [(addrA, ''PLAY ann''), (addrB, ''PLAY bob'')] started of
        Inl f \<Rightarrow> False
      | Inr g \<Rightarrow>
          last_player_from (players g) addrA = Some 0 \<and> positions g = [(0, 10), (0, 11)]
          \<and> map_sum id (positions \<circ> fst) (handleMessage addrA (''KEY '' @ [run_char East]) g)
              = Inr [(0, 11), (0, 10)]
          \<and> step_until_blocked addrA East g
              = Some (map_sum id fst (handleMessage addrA (''KEY '' @ [run_char East]) g)))"
proof -
  have wf: "well_formed_map (rawGrid started)"
    by (simp add: well_formed_map_def map_alphabet_def started_def row12_def grid_ok_def)
  obtain g where r: "message_loop [(addrA, ''PLAY ann''), (addrB, ''PLAY bob'')] started = Inr g"
    and s: "last_player_from (players g) addrA = Some 0"
    and v: "positions g = [(0, 10), (0, 11)]"
      "map_sum id (positions \<circ> fst) (handleMessage addrA (''KEY '' @ [run_char East]) g)
         = Inr [(0, 11), (0, 10)]"
    using run_join_join_run by blast
  from run_key_as_steps [OF start_row12 wf r s]
  have e: "step_until_blocked addrA East g
           = Some (map_sum id fst (handleMessage addrA (''KEY '' @ [run_char East]) g))" .
  show ?thesis
    by (simp only: start_row12 wf r sum.case s v e simp_thms)
qed

subsection \<open>Rounding to single precision\<close>

text \<open>Rounding to an integer moves a number by at most one half, and leaves an integer
  where it is.\<close>

lemma round_nearest_even_error: "\<bar>of_int (round_nearest_even x) - x\<bar> \<le> 1 / 2"
proof -
  define d where "d = x - of_int \<lfloor>x\<rfloor>"
  have d: "0 \<le> d" "d < 1" unfolding d_def by linarith+
  have x: "x = of_int \<lfloor>x\<rfloor> + d" by (simp add: d_def)
  consider "d < 1 / 2" | "1 / 2 < d" | "d = 1 / 2" by linarith
  then show ?thesis
  proof cases
    case 1
    then have "round_nearest_even x = \<lfloor>x\<rfloor>" by (simp add: round_nearest_even_def d_def Let_def)
    then have "of_int (round_nearest_even x) - x = - d" by (simp add: d_def)
    then show ?thesis using 1 d by (simp add: abs_if)
  next
    case 2
    then have "round_nearest_even x = \<lfloor>x\<rfloor> + 1" by (simp add: round_nearest_even_def d_def Let_def)
    then have "of_int (round_nearest_even x) - x = 1 - d" by (simp add: d_def)
    then show ?thesis using 2 d by (simp add: abs_if)
  next
    case 3
    then have "round_nearest_even x = \<lfloor>x\<rfloor> \<or> round_nearest_even x = \<lfloor>x\<rfloor> + 1"
      by (simp add: round_nearest_even_def d_def Let_def)
    then have "of_int (round_nearest_even x) - x = - d \<or> of_int (round_nearest_even x) - x = 1 - d"
      by (auto simp: d_def)
    then show ?thesis using 3 by (auto simp: abs_if)
  qed
qed

lemma round_nearest_even_int [simp]: "round_nearest_even (of_int n) = n"
  by (simp add: round_nearest_even_def)

lemma two_powi_pos [simp]: "0 < (2::rat) powi k"
  by (simp add: zero_less_power_int)

lemma two_powi_less_iff: "(2::rat) powi a < 2 powi b \<longleftrightarrow> a < b"
proof
  assume "(2::rat) powi a < 2 powi b"
  show "a < b"
  proof (rule ccontr)
    assume "\<not> a < b"
    then have "(2::rat) powi b \<le> 2 powi a" by (intro power_int_increasing) auto
    then show False using \<open>(2::rat) powi a < 2 powi b\<close> by simp
  qed
next
  assume "a < b"
  then show "(2::rat) powi a < 2 powi b" by (intro power_int_strict_increasing) auto
qed

lemma bitlen_powi:
  assumes "0 < p"
  shows "(2::rat) powi (bitlen p - 1) \<le> of_int p" "of_int p < (2::rat) powi (bitlen p)"
proof -
  have b: "1 \<le> bitlen p" using assms bitlen_eq_zero_iff [of p] bitlen_nonneg [of p] by (simp add: order_less_le)
  have "2 ^ nat (bitlen p - 1) \<le> p" "p < 2 ^ nat (bitlen p)" using bitlen_bounds [OF assms] by auto
  then have "(of_int (2 ^ nat (bitlen p - 1)) :: rat) \<le> of_int p" "(of_int p :: rat) < of_int (2 ^ nat (bitlen p))"
    by (simp_all only: of_int_le_iff of_int_less_iff)
  then show "(2::rat) powi (bitlen p - 1) \<le> of_int p" "of_int p < (2::rat) powi (bitlen p)"
    using b by (simp_all add: power_int_nonneg_exp)
qed

lemma float_exponent_bounds:
  assumes "x \<noteq> 0"
  shows "2 powi (float_exponent x) \<le> \<bar>x\<bar>" "\<bar>x\<bar> < 2 powi (float_exponent x + 1)"
proof -
  obtain p q where pq: "quotient_of \<bar>x\<bar> = (p, q)" by (cases "quotient_of \<bar>x\<bar>")
  have q: "0 < q" using pq by (rule quotient_of_denom_pos)
  have x: "\<bar>x\<bar> = of_int p / of_int q" using pq by (rule quotient_of_div)
  have "0 < \<bar>x\<bar>" using assms by simp
  then have p: "0 < p" using x q by (simp add: zero_less_divide_iff)
  define k where "k = bitlen p - bitlen q"
  note bp = bitlen_powi [OF p] and bq = bitlen_powi [OF q]
  have qpos: "(0::rat) < of_int q" using q by simp
  have up: "\<bar>x\<bar> < 2 powi (k + 1)"
  proof -
    have "\<bar>x\<bar> < 2 powi (bitlen p) / of_int q" unfolding x using bp(2) qpos by (simp add: divide_strict_right_mono)
    also have "\<dots> \<le> 2 powi (bitlen p) / 2 powi (bitlen q - 1)"
      using bq(1) qpos by (intro divide_left_mono) (auto intro!: mult_pos_pos)
    also have "\<dots> = 2 powi (k + 1)" unfolding k_def by (simp flip: power_int_diff) (simp add: algebra_simps)
    finally show ?thesis .
  qed
  have lo: "2 powi (k - 1) \<le> \<bar>x\<bar>"
  proof -
    have "2 powi (k - 1) = 2 powi (bitlen p - 1) / (2::rat) powi (bitlen q)"
      unfolding k_def by (simp flip: power_int_diff) (simp add: algebra_simps)
    also have "\<dots> \<le> of_int p / 2 powi (bitlen q)" using bp(1) by (simp add: divide_right_mono)
    also have "\<dots> \<le> of_int p / of_int q"
      using bq(2) p qpos by (intro divide_left_mono) (auto intro!: mult_pos_pos)
    finally show ?thesis unfolding x .
  qed
  have e: "float_exponent x = (if 2 powi k \<le> \<bar>x\<bar> then k else k - 1)"
    unfolding float_exponent_def pq by (simp add: k_def Let_def)
  show "2 powi (float_exponent x) \<le> \<bar>x\<bar>" using lo by (simp add: e)
  show "\<bar>x\<bar> < 2 powi (float_exponent x + 1)" using up by (auto simp: e)
qed

lemma to_float_zero [simp]: "to_float 0 = 0"
  by (simp add: to_float_def)

lemma to_float_error:
  assumes "2 powi (- 126) \<le> \<bar>x\<bar>"
  shows "\<bar>to_float x - x\<bar> \<le> \<bar>x\<bar> / 2 ^ 24"
proof -
  have x0: "x \<noteq> 0" using assms two_powi_pos [of "- 126"] by auto
  define e where "e = float_exponent x"
  note b = float_exponent_bounds [OF x0, folded e_def]
  have "(2::rat) powi (- 126) < 2 powi (e + 1)" using assms b(2) by simp
  then have e: "- 126 \<le> e" using two_powi_less_iff [of "- 126" "e + 1"] by simp
  define u :: rat where "u = 2 powi (e - 23)"
  have u: "0 < u" by (simp add: u_def)
  have tf: "to_float x = of_int (round_nearest_even (x / u)) * u"
    using x0 e by (simp add: to_float_def e_def [symmetric] u_def max_def Let_def)
  have "to_float x - x = (of_int (round_nearest_even (x / u)) - x / u) * u"
    unfolding tf using u by (simp add: algebra_simps)
  then have "\<bar>to_float x - x\<bar> = \<bar>of_int (round_nearest_even (x / u)) - x / u\<bar> * u"
    using u by (simp add: abs_mult)
  also have "\<dots> \<le> 1 / 2 * u" using round_nearest_even_error [of "x / u"] u
    by (intro mult_right_mono) auto
  also have "\<dots> = 2 powi e / 2 ^ 24"
    unfolding u_def by (simp add: power_int_diff)
  also have "\<dots> \<le> \<bar>x\<bar> / 2 ^ 24" using b(1) by (simp add: divide_right_mono)
  finally show ?thesis .
qed

lemma to_float_int:
  assumes "\<bar>n\<bar> < 2 ^ 24"
  shows "to_float (of_int n) = of_int n"
proof (cases "n = 0")
  case True
  then show ?thesis by simp
next
  case False
  define e where "e = float_exponent (of_int n)"
  have x0: "(of_int n :: rat) \<noteq> 0" using False by simp
  note b = float_exponent_bounds [OF x0, folded e_def]
  have "(1::rat) \<le> \<bar>of_int n\<bar>" using False by (simp flip: of_int_abs add: order_less_le) 
  then have "(2::rat) powi 0 < 2 powi (e + 1)" using b(2) by simp
  then have e0: "0 \<le> e" using two_powi_less_iff [of 0 "e + 1"] by simp
  have "(of_int \<bar>n\<bar> :: rat) < of_int (2 ^ 24)" using assms by (simp only: of_int_less_iff)
  then have "\<bar>of_int n :: rat\<bar> < 2 ^ 24" by simp
  then have "(2::rat) powi e < 2 powi 24" using b(1) by simp
  then have e23: "e \<le> 23" using two_powi_less_iff [of e 24] by simp
  define u :: rat where "u = 2 powi (e - 23)"
  have u: "u = 1 / 2 ^ nat (23 - e)"
    using e23 power_int_minus_divide [of "2::rat" "23 - e"] by (simp add: u_def power_int_nonneg_exp)
  have "of_int n / u = (of_int (n * 2 ^ nat (23 - e)) :: rat)" by (simp add: u)
  then have r: "round_nearest_even (of_int n / u) = n * 2 ^ nat (23 - e)"
    by (simp only: round_nearest_even_int)
  have "to_float (of_int n) = of_int (round_nearest_even (of_int n / u)) * u"
    using x0 e0 by (simp add: to_float_def e_def [symmetric] u_def max_def Let_def)
  also have "\<dots> = of_int n" unfolding r by (simp add: u)
  finally show ?thesis .
qed

subsection \<open>The loops of the visibility test\<close>

text \<open>The loop succeeds exactly when its test holds at every index of the range.\<close>

lemma for_all_from_iff: "for_all_from lo hi ok \<longleftrightarrow> (\<forall>i. lo \<le> i \<and> i < hi \<longrightarrow> ok i)"
proof (induction lo hi ok rule: for_all_from.induct)
  case (1 i hi ok)
  show ?case
  proof (cases "i < hi")
    case False
    then show ?thesis by (auto simp: for_all_from.simps [of i])
  next
    case True
    show ?thesis
    proof (cases "ok i")
      case False
      with True show ?thesis by (auto simp: for_all_from.simps [of i])
    next
      case holds: True
      have "for_all_from i hi ok = for_all_from (i + 1) hi ok"
        using True holds by (simp add: for_all_from.simps [of i])
      also have "\<dots> = (\<forall>j. i + 1 \<le> j \<and> j < hi \<longrightarrow> ok j)"
        using 1 True holds by simp
      also have "\<dots> = (\<forall>j. i \<le> j \<and> j < hi \<longrightarrow> ok j)"
      proof
        assume a: "\<forall>j. i + 1 \<le> j \<and> j < hi \<longrightarrow> ok j"
        show "\<forall>j. i \<le> j \<and> j < hi \<longrightarrow> ok j"
        proof (intro allI impI)
          fix j assume j: "i \<le> j \<and> j < hi"
          show "ok j"
          proof (cases "j = i")
            case True
            then show ?thesis using holds by simp
          next
            case False
            then have "i + 1 \<le> j \<and> j < hi" using j by linarith
            then show ?thesis using a by blast
          qed
        qed
      next
        assume a: "\<forall>j. i \<le> j \<and> j < hi \<longrightarrow> ok j"
        show "\<forall>j. i + 1 \<le> j \<and> j < hi \<longrightarrow> ok j"
        proof (intro allI impI)
          fix j assume "i + 1 \<le> j \<and> j < hi"
          then have "i \<le> j \<and> j < hi" by linarith
          then show "ok j" using a by blast
        qed
      qed
      finally show ?thesis .
    qed
  qed
qed


subsection \<open>The crossing point on a grid of at most \<open>2^22\<close> cells\<close>

text \<open>
  With operands below \<open>2^24\<close> the conversions and the product are exact, so the computed
  crossing point is the quotient rounded, plus the offset, rounded again. When the divisor
  divides the product, both roundings are exact. Otherwise the exact crossing point is at
  least \<open>1 / \<bar>d\<bar>\<close> away from the integers next to it, and on a grid with \<open>H\<close> rows,
  \<open>W\<close> columns and \<open>H * W \<le> 2^22\<close> the two roundings move it by less than that.
\<close>

lemma crossing_operands:
  assumes "\<bar>i - pr\<bar> < 2 ^ 24" "\<bar>b\<bar> < 2 ^ 24" "\<bar>(i - pr) * b\<bar> < 2 ^ 24" "\<bar>d\<bar> < 2 ^ 24"
    "\<bar>p\<bar> < 2 ^ 24"
  shows "crossing i pr b d p
         = to_float (to_float (of_int ((i - pr) * b) / of_int d) + of_int p)"
proof -
  have "to_float (of_int (i - pr)) * to_float (of_int b) = of_int ((i - pr) * b)"
    using assms(1,2) by (simp only: to_float_int of_int_mult)
  moreover have "to_float (of_int ((i - pr) * b)) = of_int ((i - pr) * b)"
    using assms(3) by (rule to_float_int)
  moreover have "to_float (of_int d) = of_int d" using assms(4) by (rule to_float_int)
  moreover have "to_float (of_int p) = of_int p" using assms(5) by (rule to_float_int)
  ultimately show ?thesis by (simp only: crossing_def)
qed

lemma crossing_exact:
  assumes dv: "d dvd (i - pr) * b"
    and "\<bar>i - pr\<bar> < 2 ^ 24" "\<bar>b\<bar> < 2 ^ 24" "\<bar>(i - pr) * b\<bar> < 2 ^ 24" "\<bar>d\<bar> < 2 ^ 24"
    "\<bar>p\<bar> < 2 ^ 24"
    and q: "\<bar>(i - pr) * b div d\<bar> < 2 ^ 24"
    and n: "\<bar>(i - pr) * b div d + p\<bar> < 2 ^ 24"
  shows "crossing i pr b d p = of_int ((i - pr) * b div d + p)"
proof -
  have "crossing i pr b d p
        = to_float (to_float (of_int ((i - pr) * b) / of_int d) + of_int p)"
    using assms(2-6) by (rule crossing_operands)
  also have "of_int ((i - pr) * b) / (of_int d :: rat) = of_int ((i - pr) * b div d)"
    using dv by (simp only: of_int_div)
  also have "to_float (of_int ((i - pr) * b div d)) = of_int ((i - pr) * b div d)"
    using q by (rule to_float_int)
  also have "of_int ((i - pr) * b div d) + (of_int p :: rat) = of_int ((i - pr) * b div d + p)"
    by simp
  also have "to_float \<dots> = of_int ((i - pr) * b div d + p)"
    using n by (rule to_float_int)
  finally show ?thesis .
qed


lemma quotient_fraction:
  fixes x d :: int
  assumes "d \<noteq> 0" "\<not> d dvd x"
  shows "of_int (x div d) + 1 / of_int \<bar>d\<bar> \<le> (of_int x / of_int d :: rat)"
    and "(of_int x / of_int d :: rat) \<le> of_int (x div d) + 1 - 1 / of_int \<bar>d\<bar>"
proof -
  define r where "r = x mod d"
  define D :: rat where "D = of_int \<bar>d\<bar>"
  have D: "0 < D" using assms(1) by (simp add: D_def)
  have r0: "r \<noteq> 0" using assms(2) by (simp add: r_def dvd_eq_mod_eq_0)
  have "x = d * (x div d) + r" by (simp add: r_def)
  then have "(of_int x :: rat) = of_int (d * (x div d) + r)" by (rule arg_cong)
  then have "(of_int x :: rat) = of_int d * of_int (x div d) + of_int r" by simp
  then have q: "(of_int x / of_int d :: rat) = of_int (x div d) + of_int r / of_int d"
    using assms(1) by (simp add: field_simps)
  have f: "of_int r / (of_int d :: rat) = of_int \<bar>r\<bar> / D"
  proof (cases "0 < d")
    case True
    then have "0 \<le> r" by (simp add: r_def)
    then show ?thesis using True by (simp add: D_def)
  next
    case False
    then have neg: "d < 0" using assms(1) by simp
    then have "r \<le> 0" by (simp add: r_def)
    then show ?thesis using neg by (simp add: D_def)
  qed
  have "1 \<le> \<bar>r\<bar>" using r0 by simp
  then have lo: "1 \<le> (of_int \<bar>r\<bar> :: rat)" by (simp only: of_int_1_le_iff)
  have "\<bar>r\<bar> < \<bar>d\<bar>" unfolding r_def using assms(1) by (rule abs_mod_less)
  then have "\<bar>r\<bar> \<le> \<bar>d\<bar> - 1" by simp
  then have "(of_int \<bar>r\<bar> :: rat) \<le> of_int (\<bar>d\<bar> - 1)" by (simp only: of_int_le_iff)
  then have hi: "(of_int \<bar>r\<bar> :: rat) \<le> D - 1" by (simp add: D_def)
  have "1 / D \<le> of_int \<bar>r\<bar> / D" using lo D by (simp add: divide_right_mono)
  then show "of_int (x div d) + 1 / of_int \<bar>d\<bar> \<le> (of_int x / of_int d :: rat)"
    using q f by (simp add: D_def)
  have "of_int \<bar>r\<bar> / D \<le> (D - 1) / D" using hi D by (simp add: divide_right_mono)
  also have "\<dots> = 1 - 1 / D" using D by (simp add: field_simps)
  finally show "(of_int x / of_int d :: rat) \<le> of_int (x div d) + 1 - 1 / of_int \<bar>d\<bar>"
    using q f by (simp add: D_def)
qed

lemma smallest_normal_le: "(2::rat) powi (- 126) \<le> 1 / 2 ^ 24"
  by (simp add: power_int_def field_simps)


lemma crossing_between:
  assumes ndv: "\<not> d dvd (i - pr) * b" and d0: "d \<noteq> 0"
    and a: "\<bar>i - pr\<bar> < \<bar>d\<bar>" and dH: "\<bar>d\<bar> < H" and bW: "\<bar>b\<bar> < W"
    and p: "0 \<le> p" "p < W"
    and n: "0 \<le> (i - pr) * b div d + p" "(i - pr) * b div d + p < W"
    and HW: "H * W \<le> 2 ^ 22"
  shows "of_int ((i - pr) * b div d + p) < crossing i pr b d p"
    and "crossing i pr b d p < of_int ((i - pr) * b div d + p) + 1"
proof -
  define x where "x = (i - pr) * b"
  define D :: rat where "D = of_int \<bar>d\<bar>"
  define Wr :: rat where "Wr = of_int W"
  define Hr :: rat where "Hr = of_int H"
  define We :: rat where "We = Wr / 2 ^ 24"
  define q :: rat where "q = of_int x / of_int d"
  define nr :: rat where "nr = of_int (x div d + p)"
  define t :: rat where "t = q + of_int p"
  define s :: rat where "s = to_float q + of_int p"
  have W1: "1 \<le> W" using p by linarith
  have H1: "0 < H" using dH by linarith
  have "H * 1 \<le> H * W" using W1 H1 by (intro mult_left_mono) simp_all
  then have H22: "H \<le> 2 ^ 22" using HW by simp
  have "1 * W \<le> H * W" using W1 H1 by (intro mult_right_mono) simp_all
  then have W22: "W \<le> 2 ^ 22" using HW by simp
  have xabs: "\<bar>x\<bar> < \<bar>d\<bar> * W"
  proof -
    have "\<bar>x\<bar> = \<bar>i - pr\<bar> * \<bar>b\<bar>" by (simp add: x_def abs_mult)
    also have "\<dots> \<le> \<bar>i - pr\<bar> * W" using bW by (intro mult_left_mono) simp_all
    also have "\<dots> < \<bar>d\<bar> * W" using a W1 by (intro mult_strict_right_mono) simp_all
    finally show ?thesis .
  qed
  have "\<bar>d\<bar> * W \<le> H * W" using dH W1 by (intro mult_right_mono) simp_all
  then have x22: "\<bar>x\<bar> < 2 ^ 22" using xabs HW by linarith
  have x0: "x \<noteq> 0" using ndv by (auto simp: x_def)
  have small: "\<bar>i - pr\<bar> < 2 ^ 24" "\<bar>b\<bar> < 2 ^ 24" "\<bar>(i - pr) * b\<bar> < 2 ^ 24" "\<bar>d\<bar> < 2 ^ 24"
    "\<bar>p\<bar> < 2 ^ 24"
    using a dH bW p H22 W22 x22 by (simp_all add: x_def)
  have cr: "crossing i pr b d p = to_float s"
    unfolding s_def q_def x_def using small by (rule crossing_operands)
  have Dpos: "0 < D" using d0 by (simp add: D_def)
  have Wr1: "1 \<le> Wr" using W1 by (simp add: Wr_def)
  have "of_int \<bar>d\<bar> < (of_int H :: rat)" using dH by (simp only: of_int_less_iff)
  then have DH: "D < Hr" by (simp add: D_def Hr_def)
  have "(of_int (H * W) :: rat) \<le> of_int (2 ^ 22)" using HW by (simp only: of_int_le_iff)
  then have HWr: "Hr * Wr \<le> 2 ^ 22" by (simp add: Hr_def Wr_def)
  have Hpos: "0 < Hr" using Dpos DH by linarith
  have "Wr \<le> 2 ^ 22 / Hr" using HWr Hpos by (simp add: field_simps)
  then have "4 * We \<le> 1 / Hr" by (simp add: We_def)
  moreover have "1 / Hr < 1 / D" using DH Dpos by (simp add: frac_less2)
  ultimately have key: "4 * We < 1 / D" by linarith
  have We: "1 / 2 ^ 24 \<le> We" using Wr1 by (simp add: We_def)
  have qabs: "\<bar>q\<bar> = of_int \<bar>x\<bar> / D" by (simp add: q_def D_def)
  have "(of_int \<bar>x\<bar> :: rat) < of_int (\<bar>d\<bar> * W)" using xabs by (simp only: of_int_less_iff)
  then have "(of_int \<bar>x\<bar> :: rat) < D * Wr" by (simp add: D_def Wr_def)
  then have qW: "\<bar>q\<bar> < Wr" using Dpos by (simp add: qabs field_simps)
  have "1 \<le> \<bar>x\<bar>" using x0 by simp
  then have "1 \<le> (of_int \<bar>x\<bar> :: rat)" by (simp only: of_int_1_le_iff)
  then have "1 / D \<le> \<bar>q\<bar>" using Dpos by (simp add: qabs divide_right_mono)
  then have "2 powi (- 126) \<le> \<bar>q\<bar>" using key We smallest_normal_le by linarith
  then have "\<bar>to_float q - q\<bar> \<le> \<bar>q\<bar> / 2 ^ 24" by (rule to_float_error)
  moreover have "\<bar>q\<bar> / 2 ^ 24 < We" using qW by (simp add: We_def)
  ultimately have e1: "\<bar>to_float q - q\<bar> < We" by linarith
  have nr: "nr = of_int (x div d) + of_int p" by (simp add: nr_def)
  have lo: "nr + 1 / D \<le> t" and hi: "t \<le> nr + 1 - 1 / D"
    using quotient_fraction [of d x] d0 ndv by (simp_all add: nr t_def q_def D_def x_def)
  have "0 \<le> x div d + p" "x div d + p + 1 \<le> W" using n by (simp_all add: x_def)
  then have "(of_int 0 :: rat) \<le> of_int (x div d + p)" "(of_int (x div d + p + 1) :: rat) \<le> of_int W"
    by (simp_all only: of_int_le_iff)
  then have nr0: "0 \<le> nr" and nrW: "nr + 1 \<le> Wr" by (simp_all add: nr_def Wr_def)
  have st: "s - t = to_float q - q" by (simp add: s_def t_def)
  have s_lo: "3 * We < s" using st e1 lo nr0 key by linarith
  have s_hi: "s < Wr + We" using st e1 hi nrW Dpos key by linarith
  have Wepos: "0 < We" using We by simp
  have spos: "0 < s" using s_lo Wepos by linarith
  have "2 powi (- 126) \<le> \<bar>s\<bar>" using s_lo We smallest_normal_le by linarith
  then have "\<bar>to_float s - s\<bar> \<le> \<bar>s\<bar> / 2 ^ 24" by (rule to_float_error)
  moreover have "\<bar>s\<bar> / 2 ^ 24 < (Wr + We) / 2 ^ 24" using s_hi spos by simp
  moreover have "(Wr + We) / 2 ^ 24 = We + We / 2 ^ 24" by (simp add: We_def add_divide_distrib)
  moreover have "We / 2 ^ 24 \<le> We" using Wepos by simp
  ultimately have e2: "\<bar>to_float s - s\<bar> < 2 * We" by linarith
  have close: "\<bar>to_float s - t\<bar> < 1 / D" using e1 e2 st key by linarith
  have "nr < to_float s" using close lo by linarith
  then show "of_int ((i - pr) * b div d + p) < crossing i pr b d p"
    by (simp only: cr nr_def x_def)
  have "to_float s < nr + 1" using close hi by linarith
  then show "crossing i pr b d p < of_int ((i - pr) * b div d + p) + 1"
    by (simp only: cr nr_def x_def)
qed

lemma crossing_cell:
  assumes d0: "d \<noteq> 0"
    and a: "\<bar>i - pr\<bar> < \<bar>d\<bar>" and dH: "\<bar>d\<bar> < H" and bW: "\<bar>b\<bar> < W"
    and p: "0 \<le> p" "p < W"
    and n: "0 \<le> (i - pr) * b div d + p" "(i - pr) * b div d + p < W"
    and HW: "H * W \<le> 2 ^ 22"
  shows "float_to_int (crossing i pr b d p) = (i - pr) * b div d + p"
    and "crossing i pr b d p = to_float (of_int (float_to_int (crossing i pr b d p)))
         \<longleftrightarrow> d dvd (i - pr) * b"
proof -
  define m where "m = (i - pr) * b div d + p"
  have W1: "1 \<le> W" using p by linarith
  have H1: "0 < H" using dH by linarith
  have "H * 1 \<le> H * W" using W1 H1 by (intro mult_left_mono) simp_all
  then have H22: "H \<le> 2 ^ 22" using HW by simp
  have "1 * W \<le> H * W" using W1 H1 by (intro mult_right_mono) simp_all
  then have W22: "W \<le> 2 ^ 22" using HW by simp
  have m: "0 \<le> m" "m < W" using n by (simp_all add: m_def)
  have m24: "\<bar>m\<bar> < 2 ^ 24" using m W22 by simp
  have fm: "to_float (of_int m) = of_int m" using m24 by (rule to_float_int)
  have both: "float_to_int (crossing i pr b d p) = m
    \<and> (crossing i pr b d p = of_int m \<longleftrightarrow> d dvd (i - pr) * b)"
  proof (cases "d dvd (i - pr) * b")
    case True
    have "\<bar>(i - pr) * b\<bar> = \<bar>i - pr\<bar> * \<bar>b\<bar>" by (simp add: abs_mult)
    also have "\<dots> \<le> \<bar>i - pr\<bar> * W" using bW by (intro mult_left_mono) simp_all
    also have "\<dots> \<le> \<bar>d\<bar> * W" using a W1 by (intro mult_right_mono) simp_all
    also have "\<dots> \<le> H * W" using dH W1 by (intro mult_right_mono) simp_all
    finally have x: "\<bar>(i - pr) * b\<bar> < 2 ^ 24" using HW by simp
    have "\<bar>(i - pr) * b div d\<bar> < 2 ^ 24" using m p W22 by (simp add: m_def)
    then have "crossing i pr b d p = of_int ((i - pr) * b div d + p)"
      using True a dH bW p H22 W22 x m24
      by (intro crossing_exact) (simp_all add: m_def)
    then have "crossing i pr b d p = of_int m" by (simp only: m_def)
    then show ?thesis using True m by (simp add: float_to_int_def)
  next
    case False
    have lo: "of_int m < crossing i pr b d p" and hi: "crossing i pr b d p < of_int m + 1"
      unfolding m_def using False d0 a dH bW p n HW by (rule crossing_between)+
    have "(0::rat) \<le> of_int m" using m by simp
    then have "0 \<le> crossing i pr b d p" using lo by linarith
    moreover have "\<lfloor>crossing i pr b d p\<rfloor> = m" using lo hi by (intro floor_unique) simp_all
    ultimately show ?thesis using False lo by (simp add: float_to_int_def)
  qed
  then show "float_to_int (crossing i pr b d p) = (i - pr) * b div d + p"
    by (simp add: m_def)
  show "crossing i pr b d p = to_float (of_int (float_to_int (crossing i pr b d p)))
         \<longleftrightarrow> d dvd (i - pr) * b"
    using both fm by simp
qed


lemma segment_within:
  fixes pr r pc c i W :: int
  assumes pc: "0 \<le> pc" "pc < W" and c: "0 \<le> c" "c < W"
    and i: "min pr r < i" "i < max pr r"
  shows "0 \<le> (i - pr) * (c - pc) div (r - pr) + pc"
    and "(i - pr) * (c - pc) div (r - pr) + pc < W"
proof -
  define l :: rat where "l = of_int (i - pr) / of_int (r - pr)"
  define B :: rat where "B = of_int (c - pc)"
  define t :: rat where "t = l * B + of_int pc"
  have "0 < l \<and> l < 1"
  proof -
    consider "pr < r" | "r < pr" using i by linarith
    then show ?thesis
    proof cases
      case 1
      then have "0 < i - pr" "i - pr < r - pr" using i by simp_all
      then have "(0::rat) < of_int (i - pr)" "(of_int (i - pr) :: rat) < of_int (r - pr)"
        by (simp_all only: of_int_0_less_iff of_int_less_iff)
      then show ?thesis by (simp add: l_def)
    next
      case 2
      then have "i - pr < 0" "r - pr < i - pr" using i by simp_all
      then have "(of_int (i - pr) :: rat) < 0" "(of_int (r - pr) :: rat) < of_int (i - pr)"
        by (simp_all only: of_int_less_0_iff of_int_less_iff)
      then show ?thesis by (simp add: l_def field_simps)
    qed
  qed
  then have l: "0 < l" "l < 1" by simp_all
  have t: "0 \<le> t \<and> t < of_int W"
  proof (cases "0 \<le> c - pc")
    case True
    then have B: "0 \<le> B" by (simp add: B_def)
    then have "0 \<le> l * B" using l by simp
    moreover have "l * B \<le> 1 * B" using l B by (intro mult_right_mono) simp_all
    moreover have "B + of_int pc = (of_int c :: rat)" by (simp add: B_def)
    moreover have "(of_int c :: rat) < of_int W" "(0::rat) \<le> of_int pc"
      using c pc by simp_all
    ultimately show ?thesis unfolding t_def by linarith
  next
    case False
    then have B: "B \<le> 0" by (simp add: B_def)
    then have "l * B \<le> 0" using l by (simp add: mult_le_0_iff)
    moreover have "1 * B \<le> l * B" using l B by (intro mult_right_mono_neg) simp_all
    moreover have "B + of_int pc = (of_int c :: rat)" by (simp add: B_def)
    moreover have "(of_int pc :: rat) < of_int W" "(0::rat) \<le> of_int c"
      using c pc by simp_all
    ultimately show ?thesis unfolding t_def by linarith
  qed
  have "t = of_int ((i - pr) * (c - pc)) / of_int (r - pr) + of_int pc"
    by (simp add: t_def l_def B_def)
  then have "\<lfloor>t\<rfloor> = \<lfloor>(of_int ((i - pr) * (c - pc)) / of_int (r - pr) :: rat)\<rfloor> + pc"
    by (simp only: floor_add_int)
  then have fl: "\<lfloor>t\<rfloor> = (i - pr) * (c - pc) div (r - pr) + pc"
    by (simp only: floor_divide_of_int_eq)
  have "0 \<le> \<lfloor>t\<rfloor>" using t by simp
  then show "0 \<le> (i - pr) * (c - pc) div (r - pr) + pc" by (simp only: fl)
  have "\<lfloor>t\<rfloor> < W" using t by (simp add: floor_less_iff)
  then show "(i - pr) * (c - pc) div (r - pr) + pc < W" by (simp only: fl)
qed

lemma segment_reversed:
  fixes pr r pc c i :: int
  assumes "r \<noteq> pr"
  shows "(i - r) * (pc - c) div (pr - r) + c = (i - pr) * (c - pc) div (r - pr) + pc"
    and "(pr - r) dvd (i - r) * (pc - c) \<longleftrightarrow> (r - pr) dvd (i - pr) * (c - pc)"
proof -
  define d where "d = r - pr"
  define b where "b = c - pc"
  define x where "x = (i - pr) * b"
  have d0: "d \<noteq> 0" using assms by (simp add: d_def)
  have num: "(i - r) * (pc - c) = - (x + d * (- b))"
    by (simp add: x_def d_def b_def algebra_simps)
  have den: "pr - r = - d" by (simp add: d_def)
  have "(i - r) * (pc - c) div (pr - r) = (x + d * (- b)) div d"
    by (simp only: num den div_minus_minus)
  also have "\<dots> = - b + x div d" using d0 by (rule div_mult_self2)
  finally have "(i - r) * (pc - c) div (pr - r) + c = x div d + pc" by (simp add: b_def)
  then show "(i - r) * (pc - c) div (pr - r) + c = (i - pr) * (c - pc) div (r - pr) + pc"
    by (simp only: x_def b_def d_def)
  have "(pr - r) dvd (i - r) * (pc - c) \<longleftrightarrow> d dvd x + d * (- b)"
    by (simp only: num den minus_dvd_iff dvd_minus_iff)
  also have "\<dots> \<longleftrightarrow> d dvd x" by (rule dvd_add_left_iff) simp
  finally show "(pr - r) dvd (i - r) * (pc - c) \<longleftrightarrow> (r - pr) dvd (i - pr) * (c - pc)"
    by (simp only: x_def b_def d_def)
qed

text \<open>Seen from the other end the segment crosses the same cells.\<close>

lemma crossing_reversed:
  fixes pr r pc c i H W :: int
  assumes pr: "0 \<le> pr" "pr < H" and r: "0 \<le> r" "r < H"
    and pc: "0 \<le> pc" "pc < W" and c: "0 \<le> c" "c < W"
    and HW: "H * W \<le> 2 ^ 22"
    and i: "min pr r < i" "i < max pr r"
  shows "float_to_int (crossing i r (pc - c) (pr - r) c)
         = float_to_int (crossing i pr (c - pc) (r - pr) pc)"
    and "crossing i r (pc - c) (pr - r) c
           = to_float (of_int (float_to_int (crossing i pr (c - pc) (r - pr) pc)))
         \<longleftrightarrow> crossing i pr (c - pc) (r - pr) pc
           = to_float (of_int (float_to_int (crossing i pr (c - pc) (r - pr) pc)))"
proof -
  have ne: "r \<noteq> pr" using i by auto
  have i': "min r pr < i" "i < max r pr" using i by (simp_all add: min.commute max.commute)
  have f: "float_to_int (crossing i pr (c - pc) (r - pr) pc)
           = (i - pr) * (c - pc) div (r - pr) + pc"
    and ft: "crossing i pr (c - pc) (r - pr) pc
             = to_float (of_int (float_to_int (crossing i pr (c - pc) (r - pr) pc)))
             \<longleftrightarrow> (r - pr) dvd (i - pr) * (c - pc)"
  proof -
    have 1: "r - pr \<noteq> 0" using ne by simp
    have 2: "\<bar>i - pr\<bar> < \<bar>r - pr\<bar>" using i by (auto simp: min_def max_def split: if_splits)
    have 3: "\<bar>r - pr\<bar> < H" using pr r by auto
    have 4: "\<bar>c - pc\<bar> < W" using pc c by auto
    have 5: "0 \<le> (i - pr) * (c - pc) div (r - pr) + pc"
      "(i - pr) * (c - pc) div (r - pr) + pc < W"
      using pc c i by (rule segment_within)+
    show "float_to_int (crossing i pr (c - pc) (r - pr) pc)
           = (i - pr) * (c - pc) div (r - pr) + pc"
      using 1 2 3 4 pc 5 HW by (rule crossing_cell(1))
    show "crossing i pr (c - pc) (r - pr) pc
             = to_float (of_int (float_to_int (crossing i pr (c - pc) (r - pr) pc)))
             \<longleftrightarrow> (r - pr) dvd (i - pr) * (c - pc)"
      using 1 2 3 4 pc 5 HW by (rule crossing_cell(2))
  qed
  have g: "float_to_int (crossing i r (pc - c) (pr - r) c)
           = (i - r) * (pc - c) div (pr - r) + c"
    and gt: "crossing i r (pc - c) (pr - r) c
             = to_float (of_int (float_to_int (crossing i r (pc - c) (pr - r) c)))
             \<longleftrightarrow> (pr - r) dvd (i - r) * (pc - c)"
  proof -
    have 1: "pr - r \<noteq> 0" using ne by simp
    have 2: "\<bar>i - r\<bar> < \<bar>pr - r\<bar>" using i by (auto simp: min_def max_def split: if_splits)
    have 3: "\<bar>pr - r\<bar> < H" using pr r by auto
    have 4: "\<bar>pc - c\<bar> < W" using pc c by auto
    have 5: "0 \<le> (i - r) * (pc - c) div (pr - r) + c"
      "(i - r) * (pc - c) div (pr - r) + c < W"
      using c pc i' by (rule segment_within)+
    show "float_to_int (crossing i r (pc - c) (pr - r) c)
           = (i - r) * (pc - c) div (pr - r) + c"
      using 1 2 3 4 c 5 HW by (rule crossing_cell(1))
    show "crossing i r (pc - c) (pr - r) c
             = to_float (of_int (float_to_int (crossing i r (pc - c) (pr - r) c)))
             \<longleftrightarrow> (pr - r) dvd (i - r) * (pc - c)"
      using 1 2 3 4 c 5 HW by (rule crossing_cell(2))
  qed
  show eq: "float_to_int (crossing i r (pc - c) (pr - r) c)
         = float_to_int (crossing i pr (c - pc) (r - pr) pc)"
    by (simp only: f g segment_reversed(1) [OF ne])
  show "crossing i r (pc - c) (pr - r) c
           = to_float (of_int (float_to_int (crossing i pr (c - pc) (r - pr) pc)))
         \<longleftrightarrow> crossing i pr (c - pc) (r - pr) pc
           = to_float (of_int (float_to_int (crossing i pr (c - pc) (r - pr) pc)))"
    using gt ft segment_reversed(2) [OF ne, of i pc c] by (simp only: eq)
qed

lemma grid_isVisible_iff:
  "grid_isVisible g pr pc r c \<longleftrightarrow>
     (r = pr \<longrightarrow> (\<forall>j. min pc c < j \<and> j < max pc c \<longrightarrow> \<not> grid_isBlockable g pr j))
   \<and> (c = pc \<longrightarrow> (\<forall>i. min pr r < i \<and> i < max pr r \<longrightarrow> \<not> grid_isBlockable g i pc))
   \<and> (\<forall>i. min pr r < i \<and> i < max pr r \<longrightarrow>
         (if crossing i pr (c - pc) (r - pr) pc
             = to_float (of_int (float_to_int (crossing i pr (c - pc) (r - pr) pc)))
          then \<not> grid_isBlockable g i (float_to_int (crossing i pr (c - pc) (r - pr) pc))
          else \<not> (grid_isBlockable g i (float_to_int (crossing i pr (c - pc) (r - pr) pc))
                  \<and> grid_isBlockable g i (float_to_int (crossing i pr (c - pc) (r - pr) pc) + 1))))
   \<and> (\<forall>j. min pc c < j \<and> j < max pc c \<longrightarrow>
         (if crossing j pc (r - pr) (c - pc) pr
             = to_float (of_int (float_to_int (crossing j pc (r - pr) (c - pc) pr)))
          then \<not> grid_isBlockable g (float_to_int (crossing j pc (r - pr) (c - pc) pr)) j
          else \<not> (grid_isBlockable g (float_to_int (crossing j pc (r - pr) (c - pc) pr)) j
                  \<and> grid_isBlockable g (float_to_int (crossing j pc (r - pr) (c - pc) pr) + 1) j)))"
proof -
  have lo: "(if pr > r then r else pr) = min pr r" "(if pc > c then c else pc) = min pc c"
    and hi: "(if pr > r then pr else r) = max pr r" "(if pc > c then pc else c) = max pc c"
    by (simp_all add: min_def max_def)
  have step: "\<And>x i :: int. x + 1 \<le> i \<longleftrightarrow> x < i" by linarith
  have z: "r - pr = 0 \<longleftrightarrow> r = pr" "c - pc = 0 \<longleftrightarrow> c = pc" by simp_all
  show ?thesis
    by (simp only: grid_isVisible_def Let_def for_all_from_iff lo hi step z)
qed

lemma all_range_cong:
  fixes lo hi :: int
  assumes "\<And>i. lo < i \<Longrightarrow> i < hi \<Longrightarrow> P i = Q i"
  shows "(\<forall>i. lo < i \<and> i < hi \<longrightarrow> P i) = (\<forall>i. lo < i \<and> i < hi \<longrightarrow> Q i)"
  using assms by auto


subsection \<open>Visibility from both ends\<close>

text \<open>
  Claim C3, amended. On a grid of at most \<open>2^22 = 4194304\<close> cells visibility is
  symmetric: for every pair of in-bounds cells \<open>A = (pr, pc)\<close> and \<open>B = (r, c)\<close>,
  \<^verbatim>\<open>grid_isVisible(grid, pr, pc, r, c)\<close> equals \<^verbatim>\<open>grid_isVisible(grid, r, c, pr, pc)\<close>.
  The cells between the two ends are tested alike in both directions whatever they
  contain, so this holds in particular on a raw grid, without player letters and gold.
\<close>

theorem visibility_symmetric:
  assumes size: "nrow g * ncol g \<le> 2 ^ 22" and A: "in_grid g pr pc" and B: "in_grid g r c"
  shows "grid_isVisible g pr pc r c = grid_isVisible g r c pr pc"
proof -
  let ?F = "\<lambda>i. crossing i pr (c - pc) (r - pr) pc"
  let ?R = "\<lambda>i. crossing i r (pc - c) (pr - r) c"
  let ?G = "\<lambda>j. crossing j pc (r - pr) (c - pc) pr"
  let ?S = "\<lambda>j. crossing j c (pr - r) (pc - c) r"
  have b: "0 \<le> pr" "pr < nrow g" "0 \<le> r" "r < nrow g" "0 \<le> pc" "pc < ncol g"
    "0 \<le> c" "c < ncol g"
    using A B by (simp_all add: in_grid_def)
  have size': "ncol g * nrow g \<le> 2 ^ 22" using size by (simp add: mult.commute)
  have rows: "(if ?R i = to_float (of_int (float_to_int (?R i)))
               then \<not> grid_isBlockable g i (float_to_int (?R i))
               else \<not> (grid_isBlockable g i (float_to_int (?R i))
                       \<and> grid_isBlockable g i (float_to_int (?R i) + 1)))
            = (if ?F i = to_float (of_int (float_to_int (?F i)))
               then \<not> grid_isBlockable g i (float_to_int (?F i))
               else \<not> (grid_isBlockable g i (float_to_int (?F i))
                       \<and> grid_isBlockable g i (float_to_int (?F i) + 1)))"
    if "min pr r < i" "i < max pr r" for i
  proof -
    have 1: "float_to_int (?R i) = float_to_int (?F i)"
      using b(1-8) size that by (rule crossing_reversed(1))
    have 2: "?R i = to_float (of_int (float_to_int (?F i)))
             \<longleftrightarrow> ?F i = to_float (of_int (float_to_int (?F i)))"
      using b(1-8) size that by (rule crossing_reversed(2))
    show ?thesis by (simp only: 1 2)
  qed
  have cols: "(if ?S j = to_float (of_int (float_to_int (?S j)))
               then \<not> grid_isBlockable g (float_to_int (?S j)) j
               else \<not> (grid_isBlockable g (float_to_int (?S j)) j
                       \<and> grid_isBlockable g (float_to_int (?S j) + 1) j))
            = (if ?G j = to_float (of_int (float_to_int (?G j)))
               then \<not> grid_isBlockable g (float_to_int (?G j)) j
               else \<not> (grid_isBlockable g (float_to_int (?G j)) j
                       \<and> grid_isBlockable g (float_to_int (?G j) + 1) j))"
    if "min pc c < j" "j < max pc c" for j
  proof -
    have 1: "float_to_int (?S j) = float_to_int (?G j)"
      using b(5-8) b(1-4) size' that by (rule crossing_reversed(1))
    have 2: "?S j = to_float (of_int (float_to_int (?G j)))
             \<longleftrightarrow> ?G j = to_float (of_int (float_to_int (?G j)))"
      using b(5-8) b(1-4) size' that by (rule crossing_reversed(2))
    show ?thesis by (simp only: 1 2)
  qed
  have A1: "(pr = r \<longrightarrow> (\<forall>j. min c pc < j \<and> j < max c pc \<longrightarrow> \<not> grid_isBlockable g r j))
        \<longleftrightarrow> (r = pr \<longrightarrow> (\<forall>j. min pc c < j \<and> j < max pc c \<longrightarrow> \<not> grid_isBlockable g pr j))"
    by (auto simp: min.commute max.commute)
  have A2: "(pc = c \<longrightarrow> (\<forall>i. min r pr < i \<and> i < max r pr \<longrightarrow> \<not> grid_isBlockable g i c))
        \<longleftrightarrow> (c = pc \<longrightarrow> (\<forall>i. min pr r < i \<and> i < max pr r \<longrightarrow> \<not> grid_isBlockable g i pc))"
    by (auto simp: min.commute max.commute)
  have A3: "(\<forall>i. min r pr < i \<and> i < max r pr \<longrightarrow>
               (if ?R i = to_float (of_int (float_to_int (?R i)))
               then \<not> grid_isBlockable g i (float_to_int (?R i))
               else \<not> (grid_isBlockable g i (float_to_int (?R i))
                       \<and> grid_isBlockable g i (float_to_int (?R i) + 1))))
         \<longleftrightarrow> (\<forall>i. min pr r < i \<and> i < max pr r \<longrightarrow>
               (if ?F i = to_float (of_int (float_to_int (?F i)))
               then \<not> grid_isBlockable g i (float_to_int (?F i))
               else \<not> (grid_isBlockable g i (float_to_int (?F i))
                       \<and> grid_isBlockable g i (float_to_int (?F i) + 1))))"
    unfolding min.commute [of r pr] max.commute [of r pr]
    by (rule all_range_cong) (rule rows)
  have A4: "(\<forall>j. min c pc < j \<and> j < max c pc \<longrightarrow>
               (if ?S j = to_float (of_int (float_to_int (?S j)))
               then \<not> grid_isBlockable g (float_to_int (?S j)) j
               else \<not> (grid_isBlockable g (float_to_int (?S j)) j
                       \<and> grid_isBlockable g (float_to_int (?S j) + 1) j)))
         \<longleftrightarrow> (\<forall>j. min pc c < j \<and> j < max pc c \<longrightarrow>
               (if ?G j = to_float (of_int (float_to_int (?G j)))
               then \<not> grid_isBlockable g (float_to_int (?G j)) j
               else \<not> (grid_isBlockable g (float_to_int (?G j)) j
                       \<and> grid_isBlockable g (float_to_int (?G j) + 1) j)))"
    unfolding min.commute [of c pc] max.commute [of c pc]
    by (rule all_range_cong) (rule cols)
  show ?thesis
    by (simp only: grid_isVisible_iff [of g pr pc r c] grid_isVisible_iff [of g r c pr pc]
        A1 A2 A3 A4)
qed

theorem visibility_symmetric_witness:
  "nrow nook * ncol nook \<le> 2 ^ 22 \<and> in_grid nook 0 0 \<and> in_grid nook 2 3
   \<and> grid_isVisible nook 0 0 2 3 = grid_isVisible nook 2 3 0 0"
  using visibility_symmetric [of nook 0 0 2 3] by (simp add: nook_def in_grid_def)

subsection \<open>Visibility on a grid of \<open>2^26\<close> cells\<close>

text \<open>
  On the map \<open>long_hall\<close> from \<open>(0, 0)\<close> to \<open>(33554433, 1)\<close> every computed crossing
  point lies strictly between 0 and 2, and column 1 is free in all rows between.
  In the other direction the row distance \<open>33554433\<close> becomes the \<^verbatim>\<open>float\<close> \<open>33554432\<close>,
  the crossing point of row 1 is computed as exactly 0, and only the wall at \<open>(1, 0)\<close>
  is tested.
\<close>

lemma to_float_near:
  assumes "2 powi (- 126) \<le> x"
  shows "x * (7 / 8) \<le> to_float x" and "to_float x \<le> x * (9 / 8)"
proof -
  have pos: "0 < x" using assms two_powi_pos [of "- 126"] by linarith
  then have "2 powi (- 126) \<le> \<bar>x\<bar>" using assms by simp
  then have "\<bar>to_float x - x\<bar> \<le> \<bar>x\<bar> / 2 ^ 24" by (rule to_float_error)
  then have e: "\<bar>to_float x - x\<bar> \<le> x / 2 ^ 24" using pos by simp
  have "x / 2 ^ 24 \<le> x / 8" using pos by simp
  then show "x * (7 / 8) \<le> to_float x" and "to_float x \<le> x * (9 / 8)"
    using e by linarith+
qed

lemma smallest_normal_le_numeral: "(2::rat) powi (- 126) \<le> 1 / 1073741824"
  by (simp add: power_int_def field_simps)

lemma to_float_33554433: "to_float 33554433 = 33554432"
  by code_simp

lemma long_hall_crossing:
  assumes "0 < i" "i < 33554433"
  shows "0 < crossing i 0 (1 - 0) (33554433 - 0) 0" and "crossing i 0 (1 - 0) (33554433 - 0) 0 < 2"
proof -
  define x :: rat where "x = of_int i"
  define f0 where "f0 = to_float x"
  define f1 where "f1 = to_float f0"
  define q where "q = f1 / 33554432"
  define f2 where "f2 = to_float q"
  define f3 where "f3 = to_float f2"
  have "1 \<le> i" "i \<le> 33554432" using assms by simp_all
  then have "(of_int 1 :: rat) \<le> of_int i" "(of_int i :: rat) \<le> of_int 33554432"
    by (simp_all only: of_int_le_iff)
  then have x: "1 \<le> x" "x \<le> 33554432" by (simp_all add: x_def)
  have one: "to_float 1 = 1" using to_float_int [of 1] by simp
  have "crossing i 0 (1 - 0) (33554433 - 0) 0
        = to_float (to_float (to_float (to_float x * to_float 1) / to_float 33554433))"
    by (simp add: crossing_def x_def)
  then have cr: "crossing i 0 (1 - 0) (33554433 - 0) 0 = f3"
    by (simp add: one to_float_33554433 f3_def f2_def q_def f1_def f0_def)
  have "2 powi (- 126) \<le> x" using x smallest_normal_le_numeral by linarith
  then have 0: "x * (7 / 8) \<le> f0" "f0 \<le> x * (9 / 8)" unfolding f0_def by (rule to_float_near)+
  have "2 powi (- 126) \<le> f0" using x 0 smallest_normal_le_numeral by linarith
  then have 1: "f0 * (7 / 8) \<le> f1" "f1 \<le> f0 * (9 / 8)" unfolding f1_def by (rule to_float_near)+
  have "2 powi (- 126) \<le> q" using x 0 1 smallest_normal_le_numeral unfolding q_def by linarith
  then have 2: "q * (7 / 8) \<le> f2" "f2 \<le> q * (9 / 8)" unfolding f2_def by (rule to_float_near)+
  have "2 powi (- 126) \<le> f2" using x 0 1 2 smallest_normal_le_numeral unfolding q_def by linarith
  then have 3: "f2 * (7 / 8) \<le> f3" "f3 \<le> f2 * (9 / 8)" unfolding f3_def by (rule to_float_near)+
  show "0 < crossing i 0 (1 - 0) (33554433 - 0) 0" using x 0 1 2 3 unfolding cr q_def by linarith
  show "crossing i 0 (1 - 0) (33554433 - 0) 0 < 2" using x 0 1 2 3 unfolding cr q_def by linarith
qed


lemma zero_crossing: "crossing 1 33554433 (- 1) (- 33554433) 1 = 0"
  by code_simp

lemma long_hall_column:
  assumes "0 < i" "i < 33554433"
  shows "\<not> grid_isBlockable long_hall i 1"
proof -
  have k: "3 \<le> nat (i * 2 + 1)" "nat (i * 2 + 1) - 3 < 67108865" using assms by linarith+
  have "(''..#'' @ replicate 67108865 CHR ''.'') ! nat (i * 2 + 1)
        = replicate 67108865 CHR ''.'' ! (nat (i * 2 + 1) - 3)"
    using k(1) by (simp add: nth_append numeral_3_eq_3)
  also have "\<dots> = CHR ''.''" using k(2) by (rule nth_replicate)
  finally have "grid_getchar long_hall i 1 = CHR ''.''"
    using assms by (simp add: grid_getchar_def long_hall_def)
  then show ?thesis by (simp add: grid_isBlockable_def)
qed

lemma long_hall_wall: "grid_isBlockable long_hall 1 0"
proof -
  have "grid_getchar long_hall 1 0 = CHR ''#''"
    by (simp add: grid_getchar_def long_hall_def nth_append)
  then show ?thesis by (simp add: grid_isBlockable_def grid_isPlayer_def isalpha_def)
qed

lemma long_hall_forward: "grid_isVisible long_hall 0 0 33554433 1"
proof -
  let ?c = "\<lambda>i. crossing i 0 (1 - 0) (33554433 - 0) 0"
  let ?body = "\<lambda>i. if ?c i = to_float (of_int (float_to_int (?c i)))
          then \<not> grid_isBlockable long_hall i (float_to_int (?c i))
          else \<not> (grid_isBlockable long_hall i (float_to_int (?c i))
                  \<and> grid_isBlockable long_hall i (float_to_int (?c i) + 1))"
  have body: "?body i" if "min 0 33554433 < i \<and> i < max 0 33554433" for i
  proof -
    have i: "0 < i" "i < 33554433" using that by simp_all
    have c: "0 < ?c i" "?c i < 2" using i by (rule long_hall_crossing)+
    have free: "\<not> grid_isBlockable long_hall i 1" using i by (rule long_hall_column)
    have fl: "float_to_int (?c i) = \<lfloor>?c i\<rfloor>" using c by (simp add: float_to_int_def)
    have "0 \<le> \<lfloor>?c i\<rfloor>" "\<lfloor>?c i\<rfloor> < 2" using c by (simp_all add: floor_less_iff)
    then consider "\<lfloor>?c i\<rfloor> = 0" | "\<lfloor>?c i\<rfloor> = 1" by linarith
    then show ?thesis
    proof cases
      case 1
      then have "float_to_int (?c i) = 0" using fl by simp
      moreover have "?c i \<noteq> to_float (of_int 0)" using c by simp
      ultimately show ?thesis using free by simp
    next
      case 2
      then have "float_to_int (?c i) = 1" using fl by simp
      moreover have "to_float 1 = 1" using to_float_int [of 1] by simp
      ultimately show ?thesis using free by (simp add: float_to_int_def)
    qed
  qed
  have none: "\<not> (min 0 1 < j \<and> j < max 0 1)" for j :: int by simp
  show ?thesis unfolding grid_isVisible_iff
  proof (intro conjI allI impI)
    fix i :: int assume "min 0 33554433 < i \<and> i < max 0 33554433"
    then show "?body i" by (rule body)
  qed (use none in simp_all)
qed

lemma long_hall_backward: "\<not> grid_isVisible long_hall 33554433 1 0 0"
proof
  let ?c = "\<lambda>i. crossing i 33554433 (0 - 1) (0 - 33554433) 1"
  let ?body = "\<lambda>i. if ?c i = to_float (of_int (float_to_int (?c i)))
          then \<not> grid_isBlockable long_hall i (float_to_int (?c i))
          else \<not> (grid_isBlockable long_hall i (float_to_int (?c i))
                  \<and> grid_isBlockable long_hall i (float_to_int (?c i) + 1))"
  assume "grid_isVisible long_hall 33554433 1 0 0"
  then have "\<forall>i. min 33554433 0 < i \<and> i < max 33554433 0 \<longrightarrow> ?body i"
    unfolding grid_isVisible_iff by blast
  then have "min 33554433 0 < (1::int) \<and> (1::int) < max 33554433 0 \<longrightarrow> ?body 1"
    by (rule spec)
  then have "?body 1" by simp
  moreover have "?c 1 = 0" using zero_crossing by simp
  ultimately show False using long_hall_wall by (simp add: float_to_int_def)
qed


text \<open>
  Claim C3 as stated fails on a large grid: \<open>long_hall\<close> holds room spots and one wall,
  no player letter and no gold, both cells are in bounds, \<open>(33554433, 1)\<close> is visible
  from \<open>(0, 0)\<close>, and \<open>(0, 0)\<close> is not visible from \<open>(33554433, 1)\<close>.
\<close>

theorem visibility_counterexample:
  "in_grid long_hall 0 0 \<and> in_grid long_hall 33554433 1
   \<and> set (map_chars long_hall) = {CHR ''.'', CHR ''#''}
   \<and> grid_isVisible long_hall 0 0 33554433 1 \<and> \<not> grid_isVisible long_hall 33554433 1 0 0"
proof -
  have "set (map_chars long_hall) = {CHR ''.'', CHR ''#''}"
    by (auto simp: long_hall_def)
  then show ?thesis using long_hall_forward long_hall_backward
    by (simp add: in_grid_def long_hall_def)
qed

end
